theory Spec2Isabelle
  imports Complex_Main "HOL-Library.Multiset" "HOL-Library.Product_Lexorder"
begin

section \<open>JavaScript values\<close>

text \<open>
  The registry of \<^verbatim>\<open>src/index.js\<close> stores whatever values its callers hand in: the
  HTTP handlers pass fields of \<^verbatim>\<open>req.query\<close>, which are text or missing
  (\<^verbatim>\<open>undefined\<close>), and the specification's examples pass numbers.  The model has
  these three kinds of value.  A number is \<open>NaN\<close>, an infinity, or finite, and a finite
  number is given by the rational it denotes.  Not every rational is a double; the
  operations below (truth value, comparison, the sign of a difference) are those of the
  doubles on the rationals that are.  A string is a list of code units below 256.
\<close>

datatype jsnum = NaN | NegInf | Fin rat | PosInf

datatype jsval = Undefined | Str string | Num jsnum

text \<open>ToBoolean, as used by \<^verbatim>\<open>!x\<close> and \<^verbatim>\<open>&&\<close>.\<close>

fun truthy :: "jsval \<Rightarrow> bool" where
  "truthy Undefined = False"
| "truthy (Str s) = (s \<noteq> [])"
| "truthy (Num NaN) = False"
| "truthy (Num NegInf) = True"
| "truthy (Num (Fin x)) = (x \<noteq> 0)"
| "truthy (Num PosInf) = True"

text \<open>
  The order of the numbers other than \<open>NaN\<close>, by way of a rank in a linear order: the
  infinities below and above the finite numbers.
\<close>

fun rank :: "jsnum \<Rightarrow> int \<times> rat" where
  "rank NaN = (0, 0)"
| "rank NegInf = (- 1, 0)"
| "rank (Fin x) = (0, x)"
| "rank PosInf = (1, 0)"

definition num_less :: "jsnum \<Rightarrow> jsnum \<Rightarrow> bool" where
  "num_less a b = (rank a < rank b)"

fun negate :: "jsnum \<Rightarrow> jsnum" where
  "negate NaN = NaN"
| "negate NegInf = PosInf"
| "negate (Fin x) = Fin (- x)"
| "negate PosInf = NegInf"

subsection \<open>Rounding to a double\<close>

text \<open>
  The double nearest to the positive rational \<open>p / q\<close>, ties to the even significand:
  with \<open>e\<close> the binary exponent of \<open>p / q\<close>, the doubles around it are the multiples
  of \<open>2 ^ k\<close>, where \<open>k = e - 52\<close> and at least \<open>- 1074\<close> (the subnormal range); a
  result of \<open>2 ^ 1024\<close> or more is infinite.
\<close>

function bit_length :: "int \<Rightarrow> nat" where
  "bit_length n = (if n \<le> 0 then 0 else Suc (bit_length (n div 2)))"
  by pat_completeness auto
termination
  by (relation "measure nat") auto

declare bit_length.simps [simp del]

definition floor_log2 :: "int \<Rightarrow> int \<Rightarrow> int" where
  "floor_log2 p q =
     (let d = int (bit_length p) - int (bit_length q) in
      if (if 0 \<le> d then q * 2 ^ nat d \<le> p else q \<le> p * 2 ^ nat (- d)) then d else d - 1)"

definition round_half_even :: "int \<Rightarrow> int \<Rightarrow> int" where
  "round_half_even a b =
     (let d = a div b; r = a mod b in
      if 2 * r < b then d
      else if b < 2 * r then d + 1
      else if even d then d else d + 1)"

definition round_double :: "int \<Rightarrow> int \<Rightarrow> jsnum" where
  "round_double p q =
     (if p = 0 then Fin 0
      else
        let e = floor_log2 p q;
            k = max (e - 52) (- 1074);
            n = (if 0 \<le> k then round_half_even p (q * 2 ^ nat k)
                 else round_half_even (p * 2 ^ nat (- k)) q);
            v = (if 0 \<le> k then of_int (n * 2 ^ nat k) else of_int n / of_int (2 ^ nat (- k)))
        in if (2 :: rat) ^ 1024 \<le> v then PosInf else Fin v)"

subsection \<open>Text to number\<close>

text \<open>
  StringToNumber.  White space (of the code units below 256: tab, line feed, vertical
  tab, form feed, carriage return, space, no-break space) is trimmed.  What is left is
  empty, which reads as 0; or a hexadecimal, octal or binary integer with its prefix and
  no sign; or, after an optional sign, \<^verbatim>\<open>Infinity\<close> or decimal digits with an optional
  point and an optional exponent, at least one digit before or after the point.  Anything
  else reads as \<open>NaN\<close>.  The value is rounded to a double.
\<close>

definition is_space :: "char \<Rightarrow> bool" where
  "is_space c = (of_char c \<in> {9, 10, 11, 12, 13, 32, 160 :: nat})"

definition trim :: "string \<Rightarrow> string" where
  "trim s = rev (dropWhile is_space (rev (dropWhile is_space s)))"

definition digit_value :: "char \<Rightarrow> int option" where
  "digit_value c =
     (let n = (of_char c :: int) in
      if 48 \<le> n \<and> n \<le> 57 then Some (n - 48)
      else if 97 \<le> n \<and> n \<le> 102 then Some (n - 87)
      else if 65 \<le> n \<and> n \<le> 70 then Some (n - 55)
      else None)"

definition digits_in :: "int \<Rightarrow> string \<Rightarrow> bool" where
  "digits_in base s =
     list_all (\<lambda>c. case digit_value c of None \<Rightarrow> False | Some d \<Rightarrow> d < base) s"

definition digits_value :: "int \<Rightarrow> string \<Rightarrow> int" where
  "digits_value base s =
     foldl (\<lambda>n c. base * n + (case digit_value c of None \<Rightarrow> 0 | Some d \<Rightarrow> d)) 0 s"

definition signed_integer :: "string \<Rightarrow> int option" where
  "signed_integer s =
     (case s of
        [] \<Rightarrow> None
      | c # cs \<Rightarrow>
          if c = CHR ''-'' then
            (if cs \<noteq> [] \<and> digits_in 10 cs then Some (- digits_value 10 cs) else None)
          else if c = CHR ''+'' then
            (if cs \<noteq> [] \<and> digits_in 10 cs then Some (digits_value 10 cs) else None)
          else if digits_in 10 s then Some (digits_value 10 s) else None)"

text \<open>
  The double of \<open>m * 10 ^ e\<close>, for \<open>m\<close> of \<open>len\<close> decimal digits.  The first two
  cases only spare the powers of ten: with \<open>0 < m\<close> and \<open>400 < e\<close> the value is beyond
  every double, and with \<open>e + len < - 400\<close> it is below half the least one.
\<close>

definition scaled :: "int \<Rightarrow> nat \<Rightarrow> int \<Rightarrow> jsnum" where
  "scaled m len e =
     (if m = 0 then Fin 0
      else if 400 < e then PosInf
      else if e + int len < - 400 then Fin 0
      else if 0 \<le> e then round_double (m * 10 ^ nat e) 1
      else round_double m (10 ^ nat (- e)))"

definition unsigned_decimal :: "string \<Rightarrow> jsnum" where
  "unsigned_decimal s =
     (if s = ''Infinity'' then PosInf
      else
        let mantissa = takeWhile (\<lambda>c. c \<noteq> CHR ''e'' \<and> c \<noteq> CHR ''E'') s;
            ex = dropWhile (\<lambda>c. c \<noteq> CHR ''e'' \<and> c \<noteq> CHR ''E'') s;
            whole = takeWhile (\<lambda>c. c \<noteq> CHR ''.'') mantissa;
            fraction = drop 1 (dropWhile (\<lambda>c. c \<noteq> CHR ''.'') mantissa)
        in if \<not> (digits_in 10 whole \<and> digits_in 10 fraction) then NaN
           else if whole @ fraction = [] then NaN
           else
             (case (if ex = [] then Some 0 else signed_integer (drop 1 ex)) of
                None \<Rightarrow> NaN
              | Some e \<Rightarrow>
                  scaled (digits_value 10 (whole @ fraction)) (length (whole @ fraction))
                    (e - int (length fraction))))"

definition non_decimal :: "string \<Rightarrow> jsnum option" where
  "non_decimal s =
     (case s of
        c0 # c # ds \<Rightarrow>
          (let base = (if c = CHR ''x'' \<or> c = CHR ''X'' then 16
                       else if c = CHR ''o'' \<or> c = CHR ''O'' then 8
                       else if c = CHR ''b'' \<or> c = CHR ''B'' then 2 else 0 :: int)
           in if c0 \<noteq> CHR ''0'' then None
              else if base = 0 then None
              else if ds \<noteq> [] \<and> digits_in base ds then Some (round_double (digits_value base ds) 1)
              else Some NaN)
      | _ \<Rightarrow> None)"

definition string_to_number :: "string \<Rightarrow> jsnum" where
  "string_to_number s =
     (case trim s of
        [] \<Rightarrow> Fin 0
      | c # cs \<Rightarrow>
          (case non_decimal (c # cs) of
             Some v \<Rightarrow> v
           | None \<Rightarrow>
               if c = CHR ''-'' then negate (unsigned_decimal cs)
               else if c = CHR ''+'' then unsigned_decimal cs
               else unsigned_decimal (c # cs)))"

text \<open>ToNumber.\<close>

fun to_number :: "jsval \<Rightarrow> jsnum" where
  "to_number Undefined = NaN"
| "to_number (Str s) = string_to_number s"
| "to_number (Num n) = n"

subsection \<open>Relational comparison and subtraction\<close>

text \<open>
  \<^verbatim>\<open>a < b\<close> on two strings compares code units from the left; a proper prefix is
  smaller.
\<close>

fun str_less :: "string \<Rightarrow> string \<Rightarrow> bool" where
  "str_less [] [] = False"
| "str_less [] (d # ds) = True"
| "str_less (c # cs) [] = False"
| "str_less (c # cs) (d # ds) =
     (if c = d then str_less cs ds else (of_char c :: nat) < of_char d)"

text \<open>
  \<^verbatim>\<open>a >= b\<close>: two strings are compared as strings, with no conversion.  Any other
  pair is converted to numbers, and the comparison is false when either is \<open>NaN\<close>.
\<close>

fun js_ge :: "jsval \<Rightarrow> jsval \<Rightarrow> bool" where
  "js_ge (Str a) (Str b) = (\<not> str_less a b)"
| "js_ge a b =
     (to_number a \<noteq> NaN \<and> to_number b \<noteq> NaN \<and> \<not> num_less (to_number a) (to_number b))"

text \<open>
  \<^verbatim>\<open>a - b\<close>: both operands are converted to numbers.  The difference of two finite
  numbers is given exactly, where the language rounds it: rounding keeps its sign, and the
  difference is zero only when the two are equal, which is all that sorting asks of it.
\<close>

fun num_sub :: "jsnum \<Rightarrow> jsnum \<Rightarrow> jsnum" where
  "num_sub NaN b = NaN"
| "num_sub a NaN = NaN"
| "num_sub PosInf PosInf = NaN"
| "num_sub NegInf NegInf = NaN"
| "num_sub PosInf b = PosInf"
| "num_sub NegInf b = NegInf"
| "num_sub a PosInf = NegInf"
| "num_sub a NegInf = PosInf"
| "num_sub (Fin x) (Fin y) = Fin (x - y)"

definition js_sub :: "jsval \<Rightarrow> jsval \<Rightarrow> jsnum" where
  "js_sub a b = num_sub (to_number a) (to_number b)"

section \<open>The collections of the registry\<close>

subsection \<open>\<^verbatim>\<open>Map\<close>: keys in insertion order\<close>

type_synonym jsmap = "(jsval \<times> jsval) list"

definition Map_has :: "jsmap \<Rightarrow> jsval \<Rightarrow> bool" where
  "Map_has m k = (k \<in> set (map fst m))"

text \<open>\<^verbatim>\<open>set\<close> overwrites a present key in place and appends a new one.\<close>

fun Map_set :: "jsmap \<Rightarrow> jsval \<Rightarrow> jsval \<Rightarrow> jsmap" where
  "Map_set [] k v = [(k, v)]"
| "Map_set ((k', v') # m) k v =
     (if k' = k then (k, v) # m else (k', v') # Map_set m k v)"

definition Map_delete :: "jsmap \<Rightarrow> jsval \<Rightarrow> jsmap" where
  "Map_delete m k = filter (\<lambda>(k', v'). k' \<noteq> k) m"

subsection \<open>\<^verbatim>\<open>Array.prototype.sort\<close> with a comparator\<close>

text \<open>
  The language asks for a stable sort and counts a comparator result of \<open>NaN\<close> as 0;
  what comes of a comparator that is not a consistent order, it leaves to the
  implementation.  The server runs on Node, whose engine (V8, \<^verbatim>\<open>array-sort.tq\<close>) sorts
  an array of fewer than 64 elements in two steps, modelled here as they are written
  there.  \<open>CountAndMakeRun\<close> finds the longest run at the start of the array, which is
  either non-descending or strictly descending, and reverses a descending one.
  \<open>BinaryInsertionSort\<close> then takes each later element in turn and inserts it into the
  sorted part before it, at the place a binary search finds.

  For 64 elements and more the engine cuts the array into several such runs and merges
  them.  The merge is not modelled: the model goes on inserting.  When the comparator is a
  consistent order there is one stable sorted array and both procedures return it, so the
  model is that of the engine at every length; for longer arrays and an inconsistent
  comparator nothing is claimed.
\<close>

definition Compare :: "('a \<Rightarrow> 'a \<Rightarrow> jsnum) \<Rightarrow> 'a \<Rightarrow> 'a \<Rightarrow> jsnum" where
  "Compare cmp x y = (case cmp x y of NaN \<Rightarrow> Fin 0 | v \<Rightarrow> v)"

text \<open>The test \<^verbatim>\<open>order < 0\<close>.\<close>

definition negative :: "jsnum \<Rightarrow> bool" where
  "negative order = num_less order (Fin 0)"

text \<open>
  How many of the elements after \<open>previousElement\<close> go on with the run: the loop of
  \<open>CountAndMakeRun\<close>, which stops at the first element that breaks the run.
\<close>

fun run_extends :: "bool \<Rightarrow> ('a \<Rightarrow> 'a \<Rightarrow> jsnum) \<Rightarrow> 'a \<Rightarrow> 'a list \<Rightarrow> nat" where
  "run_extends isDescending cmp previousElement [] = 0"
| "run_extends isDescending cmp previousElement (currentElement # rest) =
     (let order = Compare cmp currentElement previousElement in
      if (if isDescending then \<not> negative order else negative order) then 0
      else Suc (run_extends isDescending cmp currentElement rest))"

definition CountAndMakeRun :: "('a \<Rightarrow> 'a \<Rightarrow> jsnum) \<Rightarrow> 'a list \<Rightarrow> nat \<times> 'a list" where
  "CountAndMakeRun cmp a =
     (case a of
        elementHigh # elementLow # rest \<Rightarrow>
          (let isDescending = negative (Compare cmp elementLow elementHigh);
               runLength = 2 + run_extends isDescending cmp elementLow rest
           in (runLength,
               if isDescending then rev (take runLength a) @ drop runLength a else a))
      | _ \<Rightarrow> (length a, a))"

text \<open>The binary search of \<open>BinaryInsertionSort\<close> for the place of \<open>pivot\<close>.\<close>

function find_left :: "('a \<Rightarrow> 'a \<Rightarrow> jsnum) \<Rightarrow> 'a \<Rightarrow> 'a list \<Rightarrow> nat \<Rightarrow> nat \<Rightarrow> nat" where
  "find_left cmp pivot a left right =
     (if left < right then
        (let mid = left + (right - left) div 2 in
         if negative (Compare cmp pivot (a ! mid)) then find_left cmp pivot a left mid
         else find_left cmp pivot a (mid + 1) right)
      else left)"
  by pat_completeness auto
termination
  by (relation "measure (\<lambda>(cmp, pivot, a, left, right). right - left)") auto

declare find_left.simps [simp del]

text \<open>
  One turn of its outer loop: the element at \<open>start\<close> is the pivot, the elements from
  its place to \<open>start\<close> move up by one, and the pivot is put in its place.
\<close>

definition insert_pivot :: "('a \<Rightarrow> 'a \<Rightarrow> jsnum) \<Rightarrow> 'a list \<Rightarrow> nat \<Rightarrow> 'a list" where
  "insert_pivot cmp a start =
     (let pivot = a ! start;
          left = find_left cmp pivot a 0 start
      in take left a @ pivot # take (start - left) (drop left a) @ drop (Suc start) a)"

definition BinaryInsertionSort :: "('a \<Rightarrow> 'a \<Rightarrow> jsnum) \<Rightarrow> 'a list \<Rightarrow> nat \<Rightarrow> 'a list" where
  "BinaryInsertionSort cmp a startArg =
     foldl (insert_pivot cmp) a [(if startArg = 0 then 1 else startArg) ..< length a]"

definition Array_sort :: "('a \<Rightarrow> 'a \<Rightarrow> jsnum) \<Rightarrow> 'a list \<Rightarrow> 'a list" where
  "Array_sort cmp a =
     (if length a < 2 then a
      else case CountAndMakeRun cmp a of (runLength, a') \<Rightarrow> BinaryInsertionSort cmp a' runLength)"

subsection \<open>The result cache\<close>

record job =
  JobID :: jsval
  JobValue :: jsval

text \<open>
  The cache is an instance of the \<^verbatim>\<open>node-cache\<close> library, which is not part of the
  repository.  Only the key \<^verbatim>\<open>'allJobs'\<close> is ever used, so the cache is the entry
  under that key, if any: the stored listing and the time (in milliseconds) at which it
  expires.
\<close>

type_synonym jscache = "(job list \<times> nat) option"

text \<open>
  Modelled from the spec: the \<^verbatim>\<open>get\<close> of ResultCache (\<^verbatim>\<open>node-cache\<close>, absent
  from the sources).  A hit before the deadline has passed returns the stored value; an
  expired entry is a miss and is dropped.
\<close>

definition cache_get :: "jscache \<Rightarrow> nat \<Rightarrow> job list option \<times> jscache" where
  "cache_get c now =
     (case c of
        None \<Rightarrow> (None, None)
      | Some (v, t) \<Rightarrow> if t < now then (None, None) else (Some v, c))"

text \<open>
  Modelled from the spec: the \<^verbatim>\<open>set\<close> of ResultCache, which stores the value with
  its expiration, \<open>ttl\<close> seconds from now, over any entry there is.
\<close>

definition cache_set :: "jscache \<Rightarrow> job list \<Rightarrow> nat \<Rightarrow> nat \<Rightarrow> jscache" where
  "cache_set c v ttl now = Some (v, now + ttl * 1000)"

text \<open>
  Modelled from the spec: the \<^verbatim>\<open>del\<close> of ResultCache, which removes the entry
  whatever its deadline.
\<close>

definition cache_del :: "jscache \<Rightarrow> jscache" where
  "cache_del c = None"

section \<open>The registry\<close>

text \<open>The three module-level collections.\<close>

record state =
  jobData :: jsmap
  lockedJobs :: "jsval set"
  cache :: jscache

definition init :: state where
  "init = \<lparr>jobData = [], lockedJobs = {}, cache = None\<rparr>"

text \<open>
  The errors, named as the specification names them; \<open>message\<close> is the text the
  source gives each.
\<close>

datatype error = InvalidInput | AlreadyExists | AlreadyProcessing | NotFound

fun message :: "error \<Rightarrow> string" where
  "message InvalidInput = ''Invalid input data''"
| "message AlreadyExists = ''Job ID already exists.''"
| "message AlreadyProcessing = ''Job ID is already being processed.''"
| "message NotFound = ''Job ID not found.''"

definition validateJobInput :: "jsval \<Rightarrow> jsval \<Rightarrow> error + unit" where
  "validateJobInput jobid jobValue =
     (if \<not> truthy jobid \<or> \<not> truthy jobValue then Inl InvalidInput else Inr ())"

subsection \<open>addJob\<close>

text \<open>
  \<^verbatim>\<open>addJob\<close> awaits a timer between taking the lock and releasing it, and other
  requests run while it waits.  The model has the two halves: \<open>addJob_start\<close> runs up to
  the \<^verbatim>\<open>await\<close> and returns the error thrown, if any, with the state at that moment;
  \<open>addJob_resume\<close> is the rest, and throws nothing.  \<open>addJob\<close> is a call that no other
  request interleaves with.
\<close>

definition addJob_start :: "state \<Rightarrow> jsval \<Rightarrow> jsval \<Rightarrow> (error + unit) \<times> state" where
  "addJob_start st jobid jobValue =
     (case validateJobInput jobid jobValue of
        Inl e \<Rightarrow> (Inl e, st)
      | Inr _ \<Rightarrow>
          if Map_has (jobData st) jobid then (Inl AlreadyExists, st)
          else if jobid \<in> lockedJobs st then (Inl AlreadyProcessing, st)
          else (Inr (), st\<lparr>lockedJobs := insert jobid (lockedJobs st)\<rparr>))"

definition addJob_resume :: "state \<Rightarrow> jsval \<Rightarrow> jsval \<Rightarrow> state" where
  "addJob_resume st jobid jobValue =
     (let st1 = st\<lparr>lockedJobs := lockedJobs st - {jobid}\<rparr>;
          st2 = st1\<lparr>jobData := Map_set (jobData st1) jobid jobValue\<rparr>
      in st2\<lparr>cache := cache_del (cache st2)\<rparr>)"

definition addJob :: "state \<Rightarrow> jsval \<Rightarrow> jsval \<Rightarrow> (error + unit) \<times> state" where
  "addJob st jobid jobValue =
     (case addJob_start st jobid jobValue of
        (Inl e, st') \<Rightarrow> (Inl e, st')
      | (Inr _, st') \<Rightarrow> (Inr (), addJob_resume st' jobid jobValue))"

subsection \<open>getAllJobs\<close>

text \<open>The loop over \<^verbatim>\<open>jobData.entries()\<close>, pushing the entries that pass the filter.\<close>

fun collect :: "jsval \<Rightarrow> jsmap \<Rightarrow> job list" where
  "collect jobValue [] = []"
| "collect jobValue ((jobid, v) # rest) =
     (if \<not> truthy jobValue \<or> js_ge v jobValue
      then \<lparr>JobID = jobid, JobValue = v\<rparr> # collect jobValue rest
      else collect jobValue rest)"

definition by_value :: "job \<Rightarrow> job \<Rightarrow> jsnum" where
  "by_value a b = js_sub (JobValue a) (JobValue b)"

text \<open>
  \<^verbatim>\<open>getAllJobs\<close> has no \<^verbatim>\<open>await\<close>: it runs to its end at one time \<open>now\<close>.  An
  array, empty or not, is truthy, so any entry the cache returns counts as a hit.
\<close>

definition getAllJobs :: "state \<Rightarrow> nat \<Rightarrow> jsval \<Rightarrow> job list \<times> state" where
  "getAllJobs st now jobValue =
     (let (cachedJobs, c1) = cache_get (cache st) now;
          st1 = st\<lparr>cache := c1\<rparr>
      in if cachedJobs \<noteq> None \<and> \<not> truthy jobValue then (the cachedJobs, st1)
         else
           (let jobs = Array_sort by_value (collect jobValue (jobData st1))
            in (jobs, st1\<lparr>cache := cache_set (cache st1) jobs 10 now\<rparr>)))"

subsection \<open>removeJob\<close>

definition removeJob_start :: "state \<Rightarrow> jsval \<Rightarrow> (error + unit) \<times> state" where
  "removeJob_start st jobid =
     (case validateJobInput jobid (Num (Fin 100)) of
        Inl e \<Rightarrow> (Inl e, st)
      | Inr _ \<Rightarrow>
          if \<not> Map_has (jobData st) jobid then (Inl NotFound, st)
          else if jobid \<in> lockedJobs st then (Inl AlreadyProcessing, st)
          else (Inr (), st\<lparr>lockedJobs := insert jobid (lockedJobs st)\<rparr>))"

definition removeJob_resume :: "state \<Rightarrow> jsval \<Rightarrow> state" where
  "removeJob_resume st jobid =
     (let st1 = st\<lparr>lockedJobs := lockedJobs st - {jobid}\<rparr>;
          st2 = st1\<lparr>jobData := Map_delete (jobData st1) jobid\<rparr>
      in st2\<lparr>cache := cache_del (cache st2)\<rparr>)"

definition removeJob :: "state \<Rightarrow> jsval \<Rightarrow> (error + unit) \<times> state" where
  "removeJob st jobid =
     (case removeJob_start st jobid of
        (Inl e, st') \<Rightarrow> (Inl e, st')
      | (Inr _, st') \<Rightarrow> (Inr (), removeJob_resume st' jobid))"

section \<open>The request handlers\<close>

text \<open>
  \<^verbatim>\<open>req.query\<close> maps a parameter of the URL to its text; a parameter the URL does
  not have reads as \<^verbatim>\<open>undefined\<close>.  (Repeated and bracketed parameters, which the
  parser turns into arrays and objects, are not modelled.)  The handlers answer 200 with
  \<^verbatim>\<open>{stat: 'ok'}\<close> or \<^verbatim>\<open>{data: jobs}\<close>, and 400 with the message of the
  error caught.  Their log lines are left out.
\<close>

type_synonym query = "(string \<times> string) list"

definition field :: "query \<Rightarrow> string \<Rightarrow> jsval" where
  "field q name = (case map_of q name of None \<Rightarrow> Undefined | Some s \<Rightarrow> Str s)"

datatype response = Stat_ok | Data "job list" | Stat_error string

definition post_add :: "state \<Rightarrow> query \<Rightarrow> response \<times> state" where
  "post_add st q =
     (case addJob st (field q ''jobid'') (field q ''jobValue'') of
        (Inl e, st') \<Rightarrow> (Stat_error (message e), st')
      | (Inr _, st') \<Rightarrow> (Stat_ok, st'))"

definition get_all :: "state \<Rightarrow> nat \<Rightarrow> query \<Rightarrow> response \<times> state" where
  "get_all st now q =
     (case getAllJobs st now (field q ''jobValue'') of (jobs, st') \<Rightarrow> (Data jobs, st'))"

definition post_remove :: "state \<Rightarrow> query \<Rightarrow> response \<times> state" where
  "post_remove st q =
     (case removeJob st (field q ''jobid'') of
        (Inl e, st') \<Rightarrow> (Stat_error (message e), st')
      | (Inr _, st') \<Rightarrow> (Stat_ok, st'))"

section \<open>Requests in flight\<close>

text \<open>
  Node runs one piece of code at a time, and a call gives way only at its
  \<^verbatim>\<open>await\<close>.  A run of the server is therefore a sequence of events: a call of
  \<^verbatim>\<open>addJob\<close> or \<^verbatim>\<open>removeJob\<close> runs its first half, and when that throws
  nothing the call is in flight until its timer fires and its second half runs; a call of
  \<^verbatim>\<open>getAllJobs\<close> runs whole.  \<open>Resume i\<close> fires the timer of the \<open>i\<close>-th call in
  flight (timers armed with equal delays fire in order, but nothing below depends on it).
\<close>

datatype call = Adding jsval jsval | Removing jsval

fun call_id :: "call \<Rightarrow> jsval" where
  "call_id (Adding jobid jobValue) = jobid"
| "call_id (Removing jobid) = jobid"

fun resume :: "state \<Rightarrow> call \<Rightarrow> state" where
  "resume st (Adding jobid jobValue) = addJob_resume st jobid jobValue"
| "resume st (Removing jobid) = removeJob_resume st jobid"

record server =
  registry :: state
  in_flight :: "call list"

datatype event =
    Add_call jsval jsval
  | Remove_call jsval
  | List_call nat jsval
  | Resume nat

fun step :: "server \<Rightarrow> event \<Rightarrow> server" where
  "step s (Add_call jobid jobValue) =
     (case addJob_start (registry s) jobid jobValue of
        (Inl e, st') \<Rightarrow> s\<lparr>registry := st'\<rparr>
      | (Inr _, st') \<Rightarrow>
          s\<lparr>registry := st', in_flight := in_flight s @ [Adding jobid jobValue]\<rparr>)"
| "step s (Remove_call jobid) =
     (case removeJob_start (registry s) jobid of
        (Inl e, st') \<Rightarrow> s\<lparr>registry := st'\<rparr>
      | (Inr _, st') \<Rightarrow> s\<lparr>registry := st', in_flight := in_flight s @ [Removing jobid]\<rparr>)"
| "step s (List_call now jobValue) =
     s\<lparr>registry := snd (getAllJobs (registry s) now jobValue)\<rparr>"
| "step s (Resume i) =
     (if i < length (in_flight s)
      then \<lparr>registry = resume (registry s) (in_flight s ! i),
            in_flight = take i (in_flight s) @ drop (Suc i) (in_flight s)\<rparr>
      else s)"

definition boot :: server where
  "boot = \<lparr>registry = init, in_flight = []\<rparr>"

definition run :: "event list \<Rightarrow> server" where
  "run evs = foldl step boot evs"

section \<open>Vocabulary of the properties\<close>

text \<open>What a request can carry for a parameter: text, or nothing.\<close>

fun query_value :: "jsval \<Rightarrow> bool" where
  "query_value Undefined = True"
| "query_value (Str s) = True"
| "query_value (Num n) = False"

fun empty_or_missing :: "jsval \<Rightarrow> bool" where
  "empty_or_missing Undefined = True"
| "empty_or_missing (Str s) = (s = [])"
| "empty_or_missing (Num n) = False"

text \<open>
  A value with a numeric reading (a number other than \<open>NaN\<close>, or text that reads as
  one), and the place of its reading in the order of the numbers.
\<close>

definition numeric :: "jsval \<Rightarrow> bool" where
  "numeric v = (to_number v \<noteq> NaN)"

definition value_rank :: "jsval \<Rightarrow> int \<times> rat" where
  "value_rank v = rank (to_number v)"

text \<open>The listing a recomputation returns: the entries kept, sorted.\<close>

definition listing :: "jsval \<Rightarrow> jsmap \<Rightarrow> job list" where
  "listing jobValue m = Array_sort by_value (collect jobValue m)"

text \<open>The cache is empty or holds the unfiltered listing of the store.\<close>

definition coherent :: "state \<Rightarrow> bool" where
  "coherent st =
     (case cache st of None \<Rightarrow> True | Some (js, t) \<Rightarrow> js = listing Undefined (jobData st))"

text \<open>The listings that consecutive calls of \<^verbatim>\<open>getAllJobs\<close> return.\<close>

fun listings :: "state \<Rightarrow> (nat \<times> jsval) list \<Rightarrow> job list list" where
  "listings st [] = []"
| "listings st ((now, jobValue) # calls) =
     fst (getAllJobs st now jobValue) # listings (snd (getAllJobs st now jobValue)) calls"

section \<open>States of a small run\<close>

text \<open>
  \<open>one_job\<close> is the registry after \<^verbatim>\<open>addJob("A", "5")\<close> and an unfiltered listing
  at time 0; \<open>adding_A\<close> is the empty registry while \<^verbatim>\<open>addJob("A", "5")\<close> waits
  for its timer; \<open>removing_A\<close> is \<open>one_job\<close> while \<^verbatim>\<open>removeJob("A")\<close> waits
  for its timer.  \<open>two_jobs\<close> and \<open>four_jobs\<close> are the registry after two and four
  calls of \<^verbatim>\<open>addJob\<close>, and \<open>filtered_cached\<close> is \<open>two_jobs\<close> after a listing
  filtered by \<^verbatim>\<open>"6"\<close> at time 0.  \<open>seven_x_three\<close> is the registry after three calls
  of \<^verbatim>\<open>addJob\<close>, the second with a value that is no number.  \<open>three_added\<close> is
  \<open>one_job\<close> after \<^verbatim>\<open>addJob("B", "3")\<close>, and \<open>three_hidden\<close> is \<open>three_added\<close>
  after a listing filtered by \<^verbatim>\<open>"4"\<close> at time 1000.
\<close>

definition one_job :: state where
  "one_job = \<lparr>jobData = [(Str ''A'', Str ''5'')], lockedJobs = {},
     cache = Some ([\<lparr>JobID = Str ''A'', JobValue = Str ''5''\<rparr>], 10000)\<rparr>"

definition adding_A :: state where
  "adding_A = \<lparr>jobData = [], lockedJobs = {Str ''A''}, cache = None\<rparr>"

definition removing_A :: state where
  "removing_A = \<lparr>jobData = [(Str ''A'', Str ''5'')], lockedJobs = {Str ''A''},
     cache = Some ([\<lparr>JobID = Str ''A'', JobValue = Str ''5''\<rparr>], 10000)\<rparr>"

definition two_jobs :: state where
  "two_jobs = \<lparr>jobData = [(Str ''A'', Str ''5''), (Str ''B'', Str ''7'')], lockedJobs = {},
     cache = None\<rparr>"

definition four_jobs :: state where
  "four_jobs =
     \<lparr>jobData = [(Str ''A'', Str ''10''), (Str ''B'', Str ''5''), (Str ''C'', Str ''10''),
        (Str ''D'', Str ''5'')],
      lockedJobs = {}, cache = None\<rparr>"

definition filtered_cached :: state where
  "filtered_cached =
     two_jobs\<lparr>cache := Some ([\<lparr>JobID = Str ''B'', JobValue = Str ''7''\<rparr>], 10000)\<rparr>"

definition seven_x_three :: state where
  "seven_x_three =
     \<lparr>jobData = [(Str ''A'', Str ''7''), (Str ''B'', Str ''x''), (Str ''C'', Str ''3'')],
      lockedJobs = {}, cache = None\<rparr>"

definition three_added :: state where
  "three_added = \<lparr>jobData = [(Str ''A'', Str ''5''), (Str ''B'', Str ''3'')], lockedJobs = {},
     cache = None\<rparr>"

definition three_hidden :: state where
  "three_hidden =
     three_added\<lparr>cache := Some ([\<lparr>JobID = Str ''A'', JobValue = Str ''5''\<rparr>], 11000)\<rparr>"

definition five_ten :: state where
  "five_ten = \<lparr>jobData = [(Str ''A'', Str ''5''), (Str ''B'', Str ''10'')], lockedJobs = {},
     cache = None\<rparr>"

section \<open>Outcome of the checks\<close>

lemma truthy_query_value: "query_value x \<Longrightarrow> truthy x = (\<not> empty_or_missing x)"
  by (cases x) simp_all

lemma addJob_start_result:
  "fst (addJob_start st jobid jobValue) =
     (if \<not> truthy jobid \<or> \<not> truthy jobValue then Inl InvalidInput
      else if Map_has (jobData st) jobid then Inl AlreadyExists
      else if jobid \<in> lockedJobs st then Inl AlreadyProcessing
      else Inr ())"
  by (simp add: addJob_start_def validateJobInput_def)

lemma addJob_result: "fst (addJob st jobid jobValue) = fst (addJob_start st jobid jobValue)"
  by (simp add: addJob_def split: prod.splits sum.splits)

lemma removeJob_start_result:
  "fst (removeJob_start st jobid) =
     (if \<not> truthy jobid then Inl InvalidInput
      else if \<not> Map_has (jobData st) jobid then Inl NotFound
      else if jobid \<in> lockedJobs st then Inl AlreadyProcessing
      else Inr ())"
  by (simp add: removeJob_start_def validateJobInput_def)

lemma removeJob_result: "fst (removeJob st jobid) = fst (removeJob_start st jobid)"
  by (simp add: removeJob_def split: prod.splits sum.splits)

lemma addJob_start_error_state:
  "fst (addJob_start st jobid jobValue) = Inl e \<Longrightarrow> snd (addJob_start st jobid jobValue) = st"
  by (auto simp: addJob_start_def split: sum.splits if_splits)

lemma removeJob_start_error_state:
  "fst (removeJob_start st jobid) = Inl e \<Longrightarrow> snd (removeJob_start st jobid) = st"
  by (auto simp: removeJob_start_def split: sum.splits if_splits)

lemma addJob_error_state:
  "fst (addJob st jobid jobValue) = Inl e \<Longrightarrow> snd (addJob st jobid jobValue) = st"
  using addJob_start_error_state [of st jobid jobValue]
  by (auto simp: addJob_def split: prod.splits sum.splits)

lemma removeJob_error_state:
  "fst (removeJob st jobid) = Inl e \<Longrightarrow> snd (removeJob st jobid) = st"
  using removeJob_start_error_state [of st jobid]
  by (auto simp: removeJob_def split: prod.splits sum.splits)

section \<open>Effects of a successful call\<close>

lemma field_present: "map_of q name = Some s \<Longrightarrow> field q name = Str s"
  by (simp add: field_def)

lemma Map_set_member: "(k, v) \<in> set (Map_set m k v)"
  by (induction m k v rule: Map_set.induct) auto

lemma Map_has_Map_set: "Map_has (Map_set m k v) k"
  using Map_set_member [of k v m] by (force simp: Map_has_def)

lemma Map_has_Map_delete: "\<not> Map_has (Map_delete m k) k"
  by (auto simp: Map_has_def Map_delete_def)

lemma addJob_success_state:
  "fst (addJob st jobid jobValue) = Inr () \<Longrightarrow>
   snd (addJob st jobid jobValue) =
     addJob_resume (st\<lparr>lockedJobs := insert jobid (lockedJobs st)\<rparr>) jobid jobValue"
  by (auto simp: addJob_def addJob_start_def split: sum.splits if_splits)

lemma removeJob_success_state:
  "fst (removeJob st jobid) = Inr () \<Longrightarrow>
   snd (removeJob st jobid) =
     removeJob_resume (st\<lparr>lockedJobs := insert jobid (lockedJobs st)\<rparr>) jobid"
  by (auto simp: removeJob_def removeJob_start_def split: sum.splits if_splits)

lemma jobData_addJob_resume:
  "jobData (addJob_resume st jobid jobValue) = Map_set (jobData st) jobid jobValue"
  by (simp add: addJob_resume_def Let_def)

lemma jobData_removeJob_resume:
  "jobData (removeJob_resume st jobid) = Map_delete (jobData st) jobid"
  by (simp add: removeJob_resume_def Let_def)

lemma cache_addJob_resume: "cache (addJob_resume st jobid jobValue) = None"
  by (simp add: addJob_resume_def Let_def cache_del_def)

lemma cache_removeJob_resume: "cache (removeJob_resume st jobid) = None"
  by (simp add: removeJob_resume_def Let_def cache_del_def)

lemma lockedJobs_addJob_resume:
  "lockedJobs (addJob_resume st jobid jobValue) = lockedJobs st - {jobid}"
  by (simp add: addJob_resume_def Let_def)

lemma lockedJobs_removeJob_resume:
  "lockedJobs (removeJob_resume st jobid) = lockedJobs st - {jobid}"
  by (simp add: removeJob_resume_def Let_def)

lemma post_add_result:
  "fst (post_add st q) =
     (case fst (addJob st (field q ''jobid'') (field q ''jobValue'')) of
        Inl e \<Rightarrow> Stat_error (message e) | Inr u \<Rightarrow> Stat_ok)"
  "snd (post_add st q) = snd (addJob st (field q ''jobid'') (field q ''jobValue''))"
  by (cases "addJob st (field q ''jobid'') (field q ''jobValue'')";
      simp add: post_add_def split: sum.splits)+

lemma get_all_result:
  "fst (get_all st now q) = Data (fst (getAllJobs st now (field q ''jobValue'')))"
  "snd (get_all st now q) = snd (getAllJobs st now (field q ''jobValue''))"
  by (cases "getAllJobs st now (field q ''jobValue'')"; simp add: get_all_def)+

lemma post_remove_result:
  "fst (post_remove st q) =
     (case fst (removeJob st (field q ''jobid'')) of
        Inl e \<Rightarrow> Stat_error (message e) | Inr u \<Rightarrow> Stat_ok)"
  "snd (post_remove st q) = snd (removeJob st (field q ''jobid''))"
  by (cases "removeJob st (field q ''jobid'')"; simp add: post_remove_def split: sum.splits)+

section \<open>The small run, evaluated\<close>

lemmas run_defs =
  addJob_def addJob_start_def addJob_resume_def removeJob_def removeJob_start_def
  removeJob_resume_def validateJobInput_def Map_has_def Map_delete_def init_def
  cache_get_def cache_set_def cache_del_def getAllJobs_def Array_sort_def Let_def

lemmas number_defs =
  string_to_number_def trim_def is_space_def non_decimal_def unsigned_decimal_def
  digits_in_def digit_value_def digits_value_def signed_integer_def scaled_def
  round_double_def floor_log2_def bit_length.simps round_half_even_def

lemma text_numbers:
  "string_to_number ''0'' = Fin 0"
  "string_to_number ''1'' = Fin 1"
  "string_to_number ''2'' = Fin 2"
  "string_to_number ''3'' = Fin 3"
  "string_to_number ''4'' = Fin 4"
  "string_to_number ''5'' = Fin 5"
  "string_to_number ''6'' = Fin 6"
  "string_to_number ''7'' = Fin 7"
  "string_to_number ''10'' = Fin 10"
  "string_to_number ''x'' = NaN"
  by (simp_all add: number_defs Let_def)

text \<open>Outside the decimal integers: a fraction, an exponent, a prefix, rounding, a sign.\<close>

lemma more_text_numbers:
  "string_to_number ''1.5'' = Fin (3 / 2)"
  "string_to_number ''1e1'' = Fin 10"
  "string_to_number ''0x10'' = Fin 16"
  "string_to_number ''9007199254740993'' = Fin 9007199254740992"
  "string_to_number ''-Infinity'' = NegInf"
  "string_to_number '' 12 '' = Fin 12"
  "string_to_number ''12px'' = NaN"
  by (simp_all add: number_defs Let_def)

lemmas sort_defs =
  Array_sort_def CountAndMakeRun_def BinaryInsertionSort_def insert_pivot_def find_left.simps
  Compare_def negative_def num_less_def by_value_def js_sub_def text_numbers upt_rec

lemmas value_defs = numeric_def value_rank_def sort_defs

text \<open>
  With a value that is no number among the values 3, 2, \<^verbatim>\<open>x\<close>, 1: the run 3, 2 is
  descending and is reversed, \<^verbatim>\<open>x\<close> stays where it is, and 1 is inserted by comparing
  it with 3 and then with 2.
\<close>

lemma sort_with_a_text_value:
  "Array_sort by_value
     [\<lparr>JobID = Str ''A'', JobValue = Str ''3''\<rparr>, \<lparr>JobID = Str ''B'', JobValue = Str ''2''\<rparr>,
      \<lparr>JobID = Str ''C'', JobValue = Str ''x''\<rparr>, \<lparr>JobID = Str ''D'', JobValue = Str ''1''\<rparr>] =
     [\<lparr>JobID = Str ''D'', JobValue = Str ''1''\<rparr>, \<lparr>JobID = Str ''B'', JobValue = Str ''2''\<rparr>,
      \<lparr>JobID = Str ''A'', JobValue = Str ''3''\<rparr>, \<lparr>JobID = Str ''C'', JobValue = Str ''x''\<rparr>]"
  by (simp add: sort_defs)

lemmas step_defs = run_def boot_def run_defs

lemma one_job_run:
  "snd (getAllJobs (snd (addJob init (Str ''A'') (Str ''5''))) 0 Undefined) = one_job"
  by (simp add: run_defs one_job_def)

lemma adding_A_run: "addJob_start init (Str ''A'') (Str ''5'') = (Inr (), adding_A)"
  by (simp add: run_defs adding_A_def)

lemma removing_A_run: "removeJob_start one_job (Str ''A'') = (Inr (), removing_A)"
  by (simp add: run_defs one_job_def removing_A_def)

lemma four_jobs_run:
  "snd (addJob (snd (addJob (snd (addJob (snd (addJob init (Str ''A'') (Str ''10'')))
      (Str ''B'') (Str ''5''))) (Str ''C'') (Str ''10''))) (Str ''D'') (Str ''5'')) = four_jobs"
  by (simp add: run_defs four_jobs_def)

section \<open>The order of the checks\<close>

text \<open>
  C3, as amended.  \<^verbatim>\<open>addJob\<close> fails with InvalidInput when the identifier or the value
  is falsy; otherwise with AlreadyExists when the store has the identifier; otherwise with
  AlreadyProcessing when the identifier is in the lock set; otherwise it succeeds.  The
  outcome is decided before the \<^verbatim>\<open>await\<close>, and it is one value: the first check that
  fails.  An empty or missing argument is falsy, and among the text or missing fields that a
  request carries nothing else is; the numbers 0 and \<open>NaN\<close> are falsy too.
\<close>

theorem addJob_checks_in_order:
  "fst (addJob_start st jobid jobValue) =
     (if \<not> truthy jobid \<or> \<not> truthy jobValue then Inl InvalidInput
      else if Map_has (jobData st) jobid then Inl AlreadyExists
      else if jobid \<in> lockedJobs st then Inl AlreadyProcessing
      else Inr ())
   \<and> fst (addJob st jobid jobValue) = fst (addJob_start st jobid jobValue)
   \<and> (empty_or_missing jobid \<or> empty_or_missing jobValue \<longrightarrow>
        fst (addJob st jobid jobValue) = Inl InvalidInput)
   \<and> (query_value jobid \<and> query_value jobValue \<longrightarrow>
        (\<not> truthy jobid \<or> \<not> truthy jobValue) =
        (empty_or_missing jobid \<or> empty_or_missing jobValue))
   \<and> \<not> truthy (Num (Fin 0)) \<and> \<not> truthy (Num NaN)"
proof -
  have "\<not> truthy x" if "empty_or_missing x" for x
    using that by (cases x) simp_all
  then show ?thesis
    by (auto simp: addJob_start_result addJob_result truthy_query_value)
qed

theorem addJob_checks_in_order_witness:
  "fst (addJob init (Str ''A'') (Str '''')) = Inl InvalidInput
   \<and> fst (addJob init Undefined (Str ''5'')) = Inl InvalidInput
   \<and> fst (addJob init (Str ''A'') (Num (Fin 0))) = Inl InvalidInput
   \<and> fst (addJob one_job (Str ''A'') (Num (Fin 6))) = Inl AlreadyExists
   \<and> fst (addJob adding_A (Str ''A'') (Str ''6'')) = Inl AlreadyProcessing
   \<and> fst (addJob init (Str ''A'') (Str ''5'')) = Inr ()
   \<and> fst (addJob init (Str ''A'') (Num (Fin 5))) = Inr ()"
  using addJob_checks_in_order [of init "Str ''A''" "Str ''''"]
    addJob_checks_in_order [of init Undefined "Str ''5''"]
    addJob_checks_in_order [of init "Str ''A''" "Num (Fin 0)"]
    addJob_checks_in_order [of one_job "Str ''A''" "Num (Fin 6)"]
    addJob_checks_in_order [of adding_A "Str ''A''" "Str ''6''"]
    addJob_checks_in_order [of init "Str ''A''" "Str ''5''"]
    addJob_checks_in_order [of init "Str ''A''" "Num (Fin 5)"]
  by (simp add: Map_has_def init_def one_job_def adding_A_def)

text \<open>
  C3 as stated has \<^verbatim>\<open>addJob\<close> go on to the other checks whenever the identifier and
  the value are neither empty nor missing.  The number 0 is neither, the identifier
  \<^verbatim>\<open>"A"\<close> is neither in the store nor locked, and the call fails with InvalidInput.
\<close>

theorem number_zero_fails_validation:
  "\<not> empty_or_missing (Str ''A'') \<and> \<not> empty_or_missing (Num (Fin 0))
   \<and> \<not> Map_has (jobData init) (Str ''A'') \<and> Str ''A'' \<notin> lockedJobs init
   \<and> fst (addJob init (Str ''A'') (Num (Fin 0))) = Inl InvalidInput"
  by (simp add: run_defs)

text \<open>
  C5.  For the text or missing identifier a request carries, \<^verbatim>\<open>removeJob\<close> fails with
  InvalidInput when the identifier is empty or missing; otherwise with NotFound when the
  store does not have the identifier; otherwise with AlreadyProcessing when the identifier
  is in the lock set; otherwise it succeeds.  The validator is the one of \<^verbatim>\<open>addJob\<close>,
  given the placeholder 100 for the value, so only the identifier can make it fail.
\<close>

theorem removeJob_checks_in_order:
  assumes "query_value jobid"
  shows "fst (removeJob_start st jobid) =
           (if empty_or_missing jobid then Inl InvalidInput
            else if \<not> Map_has (jobData st) jobid then Inl NotFound
            else if jobid \<in> lockedJobs st then Inl AlreadyProcessing
            else Inr ())
         \<and> fst (removeJob st jobid) = fst (removeJob_start st jobid)
         \<and> validateJobInput jobid (Num (Fin 100)) =
             (if empty_or_missing jobid then Inl InvalidInput else Inr ())"
  using assms
  by (simp add: removeJob_start_result removeJob_result truthy_query_value
      validateJobInput_def)

theorem removeJob_checks_in_order_witness:
  "fst (removeJob one_job (Str '''')) = Inl InvalidInput
   \<and> fst (removeJob one_job Undefined) = Inl InvalidInput
   \<and> fst (removeJob one_job (Str ''B'')) = Inl NotFound
   \<and> fst (removeJob removing_A (Str ''A'')) = Inl AlreadyProcessing
   \<and> fst (removeJob one_job (Str ''A'')) = Inr ()"
proof -
  have q: "query_value (Str ''A'')" "query_value (Str '''')" "query_value Undefined"
    "query_value (Str ''B'')"
    by simp_all
  show ?thesis
    using removeJob_checks_in_order [OF q(2), of one_job]
      removeJob_checks_in_order [OF q(3), of one_job]
      removeJob_checks_in_order [OF q(4), of one_job]
      removeJob_checks_in_order [OF q(1), of removing_A]
      removeJob_checks_in_order [OF q(1), of one_job]
    by (simp add: Map_has_def one_job_def removing_A_def)
qed

text \<open>
  C10, as amended.  \<^verbatim>\<open>addJob\<close> fails with InvalidInput on every falsy value, the
  number 0 among them.  Text is falsy only when empty: the text \<^verbatim>\<open>"0"\<close>, which is
  what \<^verbatim>\<open>POST /add?jobid=..&jobValue=0\<close> hands to \<^verbatim>\<open>addJob\<close>, passes the
  validator, and the job is stored with that value.
\<close>

theorem addJob_rejects_falsy_value:
  "(\<not> truthy jobValue \<longrightarrow> fst (addJob st jobid jobValue) = Inl InvalidInput)
   \<and> fst (addJob st jobid (Num (Fin 0))) = Inl InvalidInput
   \<and> (map_of q ''jobValue'' = Some ''0'' \<and> truthy (field q ''jobid'')
        \<and> \<not> Map_has (jobData st) (field q ''jobid'') \<and> field q ''jobid'' \<notin> lockedJobs st
      \<longrightarrow> fst (post_add st q) = Stat_ok
          \<and> (field q ''jobid'', Str ''0'') \<in> set (jobData (snd (post_add st q))))"
proof -
  have "fst (post_add st q) = Stat_ok
      \<and> (field q ''jobid'', Str ''0'') \<in> set (jobData (snd (post_add st q)))"
    if v: "map_of q ''jobValue'' = Some ''0''" and t: "truthy (field q ''jobid'')"
      and h: "\<not> Map_has (jobData st) (field q ''jobid'')"
      and l: "field q ''jobid'' \<notin> lockedJobs st"
  proof -
    have ok: "fst (addJob st (field q ''jobid'') (Str ''0'')) = Inr ()"
      using t h l by (simp add: addJob_result addJob_start_result)
    have "(field q ''jobid'', Str ''0'')
        \<in> set (jobData (snd (addJob st (field q ''jobid'') (Str ''0''))))"
      by (simp add: addJob_success_state [OF ok] jobData_addJob_resume Map_set_member)
    with ok show ?thesis
      by (simp add: post_add_result field_present [OF v])
  qed
  then show ?thesis
    by (simp add: addJob_result addJob_start_result)
qed

theorem addJob_rejects_falsy_value_witness:
  "fst (addJob one_job (Str ''B'') (Num (Fin 0))) = Inl InvalidInput
   \<and> fst (addJob one_job (Str ''B'') (Num NaN)) = Inl InvalidInput
   \<and> fst (addJob one_job (Str ''B'') (Str '''')) = Inl InvalidInput
   \<and> fst (addJob one_job (Str ''B'') Undefined) = Inl InvalidInput
   \<and> fst (post_add one_job [(''jobid'', ''B''), (''jobValue'', ''0'')]) = Stat_ok
   \<and> (Str ''B'', Str ''0'')
       \<in> set (jobData (snd (post_add one_job [(''jobid'', ''B''), (''jobValue'', ''0'')])))"
  using addJob_rejects_falsy_value [of "Num (Fin 0)" one_job "Str ''B''" "[]"]
    addJob_rejects_falsy_value [of "Num NaN" one_job "Str ''B''" "[]"]
    addJob_rejects_falsy_value [of "Str ''''" one_job "Str ''B''" "[]"]
    addJob_rejects_falsy_value [of Undefined one_job "Str ''B''"
      "[(''jobid'', ''B''), (''jobValue'', ''0'')]"]
  by (simp add: field_def Map_has_def one_job_def)

text \<open>
  C10 as stated says that a job with value 0 can never be added through the public
  interface.  The request \<^verbatim>\<open>POST /add?jobid=A&jobValue=0\<close> on the empty registry
  answers \<^verbatim>\<open>{stat: 'ok'}\<close> and stores the job, with a value that reads as the
  number 0.
\<close>

theorem zero_as_text_is_added:
  "fst (post_add init [(''jobid'', ''A''), (''jobValue'', ''0'')]) = Stat_ok
   \<and> jobData (snd (post_add init [(''jobid'', ''A''), (''jobValue'', ''0'')]))
       = [(Str ''A'', Str ''0'')]
   \<and> to_number (Str ''0'') = Fin 0"
  by (simp add: post_add_def field_def run_defs sort_defs)

section \<open>A call that fails\<close>

text \<open>
  C8.  A call of \<^verbatim>\<open>addJob\<close> or \<^verbatim>\<open>removeJob\<close> that fails, with whatever error,
  leaves the registry as it found it: the store, the lock set and the cache are those of
  before the call.
\<close>

theorem failed_call_leaves_state:
  "(fst (addJob st jobid jobValue) = Inl e \<longrightarrow> snd (addJob st jobid jobValue) = st)
   \<and> (fst (removeJob st jobid) = Inl e \<longrightarrow> snd (removeJob st jobid) = st)
   \<and> (fst (addJob_start st jobid jobValue) = Inl e \<longrightarrow>
        snd (addJob_start st jobid jobValue) = st)
   \<and> (fst (removeJob_start st jobid) = Inl e \<longrightarrow> snd (removeJob_start st jobid) = st)"
  by (simp add: addJob_error_state removeJob_error_state addJob_start_error_state
      removeJob_start_error_state)

theorem failed_call_leaves_state_witness:
  "snd (addJob one_job (Str ''B'') (Str '''')) = one_job
   \<and> snd (addJob one_job (Str ''A'') (Str ''6'')) = one_job
   \<and> snd (addJob adding_A (Str ''A'') (Str ''6'')) = adding_A
   \<and> snd (removeJob one_job (Str '''')) = one_job
   \<and> snd (removeJob one_job (Str ''B'')) = one_job
   \<and> snd (removeJob removing_A (Str ''A'')) = removing_A"
proof -
  have "fst (addJob one_job (Str ''B'') (Str '''')) = Inl InvalidInput"
    "fst (addJob one_job (Str ''A'') (Str ''6'')) = Inl AlreadyExists"
    "fst (addJob adding_A (Str ''A'') (Str ''6'')) = Inl AlreadyProcessing"
    "fst (removeJob one_job (Str '''')) = Inl InvalidInput"
    "fst (removeJob one_job (Str ''B'')) = Inl NotFound"
    "fst (removeJob removing_A (Str ''A'')) = Inl AlreadyProcessing"
    by (simp_all add: addJob_result addJob_start_result removeJob_result
        removeJob_start_result one_job_def adding_A_def removing_A_def Map_has_def)
  then show ?thesis
    using failed_call_leaves_state [of one_job "Str ''B''" "Str ''''" InvalidInput]
      failed_call_leaves_state [of one_job "Str ''A''" "Str ''6''" AlreadyExists]
      failed_call_leaves_state [of adding_A "Str ''A''" "Str ''6''" AlreadyProcessing]
      failed_call_leaves_state [of one_job "Str ''''" _ InvalidInput]
      failed_call_leaves_state [of one_job "Str ''B''" _ NotFound]
      failed_call_leaves_state [of removing_A "Str ''A''" _ AlreadyProcessing]
    by simp
qed

section \<open>The sort returns the elements it was given\<close>

lemma find_left_bounds:
  "left \<le> right \<Longrightarrow>
   left \<le> find_left cmp pivot a left right \<and> find_left cmp pivot a left right \<le> right"
proof (induction cmp pivot a left right rule: find_left.induct)
  case (1 cmp pivot a left right)
  show ?case
  proof (cases "left < right")
    case False
    then show ?thesis using "1.prems" by (simp add: find_left.simps)
  next
    case True
    let ?mid = "left + (right - left) div 2"
    have m: "left \<le> ?mid" "?mid < right" using True by auto
    show ?thesis
    proof (cases "negative (Compare cmp pivot (a ! ?mid))")
      case True
      have "left \<le> find_left cmp pivot a left ?mid \<and> find_left cmp pivot a left ?mid \<le> ?mid"
        using "1.IH"(1) [OF \<open>left < right\<close> refl True] m by simp
      then show ?thesis
        using True \<open>left < right\<close> m by (subst (1 2) find_left.simps) (simp add: Let_def)
    next
      case False
      have "?mid + 1 \<le> find_left cmp pivot a (?mid + 1) right
          \<and> find_left cmp pivot a (?mid + 1) right \<le> right"
        using "1.IH"(2) [OF \<open>left < right\<close> refl False] m by simp
      then show ?thesis
        using False \<open>left < right\<close> m by (subst (1 2) find_left.simps) (simp add: Let_def)
    qed
  qed
qed

lemma insert_pivot_split:
  assumes "start < length a"
  shows "\<exists>l \<le> start. insert_pivot cmp a start =
    take l (take start a) @ a ! start # drop l (take start a) @ drop (Suc start) a
    \<and> l = find_left cmp (a ! start) a 0 start"
proof -
  let ?l = "find_left cmp (a ! start) a 0 start"
  have l: "?l \<le> start" using find_left_bounds [of 0 start cmp "a ! start" a] by simp
  then have "take ?l (take start a) = take ?l a"
    by (simp add: min_def)
  moreover have "drop ?l (take start a) = take (start - ?l) (drop ?l a)"
    by (rule drop_take)
  ultimately show ?thesis
    using l by (auto simp: insert_pivot_def Let_def)
qed

lemma insert_pivot_mset:
  assumes "start < length a"
  shows "mset (insert_pivot cmp a start) = mset a"
    and "length (insert_pivot cmp a start) = length a"
proof -
  obtain l where l: "l \<le> start"
    and eq: "insert_pivot cmp a start =
      take l (take start a) @ a ! start # drop l (take start a) @ drop (Suc start) a"
    using insert_pivot_split [OF assms] by blast
  have a: "a = take start a @ a ! start # drop (Suc start) a"
    by (rule id_take_nth_drop [OF assms])
  have "mset (take l (take start a)) + mset (drop l (take start a)) = mset (take start a)"
    by (metis append_take_drop_id mset_append)
  then have "mset (insert_pivot cmp a start) =
      mset (take start a) + {#a ! start#} + mset (drop (Suc start) a)"
    unfolding eq by (simp add: ac_simps)
  also have "\<dots> = mset (take start a @ a ! start # drop (Suc start) a)"
    by simp
  finally show "mset (insert_pivot cmp a start) = mset a"
    using a by simp
  then show "length (insert_pivot cmp a start) = length a"
    by (rule mset_eq_length)
qed

lemma insertion_mset:
  assumes "\<forall>i \<in> set is. i < length a"
  shows "mset (foldl (insert_pivot cmp) a is) = mset a"
  using assms
proof (induction "is" arbitrary: a)
  case Nil
  show ?case by simp
next
  case (Cons i "is")
  have i: "i < length a" using Cons.prems by simp
  have "\<forall>j \<in> set is. j < length (insert_pivot cmp a i)"
    using Cons.prems by (simp add: insert_pivot_mset(2) [OF i])
  then have "mset (foldl (insert_pivot cmp) (insert_pivot cmp a i) is) =
      mset (insert_pivot cmp a i)"
    by (rule Cons.IH)
  then show ?case
    by (simp add: insert_pivot_mset(1) [OF i])
qed

lemma run_extends_le: "run_extends d cmp prev rest \<le> length rest"
  by (induction rest arbitrary: prev) (simp_all add: Let_def)

lemma CountAndMakeRun_cases:
  obtains "CountAndMakeRun cmp a = (length a, a)" "length a < 2"
  | elementHigh elementLow rest where "a = elementHigh # elementLow # rest"
      "\<not> negative (Compare cmp elementLow elementHigh)"
      "CountAndMakeRun cmp a = (2 + run_extends False cmp elementLow rest, a)"
  | elementHigh elementLow rest where "a = elementHigh # elementLow # rest"
      "negative (Compare cmp elementLow elementHigh)"
      "CountAndMakeRun cmp a =
        (2 + run_extends True cmp elementLow rest,
         rev (take (2 + run_extends True cmp elementLow rest) a)
           @ drop (2 + run_extends True cmp elementLow rest) a)"
proof (cases a)
  case Nil
  then show ?thesis using that(1) by (simp add: CountAndMakeRun_def)
next
  case (Cons elementHigh t)
  show ?thesis
  proof (cases t)
    case Nil
    then show ?thesis using that(1) Cons by (simp add: CountAndMakeRun_def)
  next
    case (Cons elementLow rest)
    have a: "a = elementHigh # elementLow # rest"
      using \<open>a = elementHigh # t\<close> Cons by simp
    show ?thesis
    proof (cases "negative (Compare cmp elementLow elementHigh)")
      case False
      then have "CountAndMakeRun cmp a = (2 + run_extends False cmp elementLow rest, a)"
        by (simp add: CountAndMakeRun_def a)
      with a False show ?thesis by (rule that(2))
    next
      case True
      then have "CountAndMakeRun cmp a =
        (2 + run_extends True cmp elementLow rest,
         rev (take (2 + run_extends True cmp elementLow rest) a)
           @ drop (2 + run_extends True cmp elementLow rest) a)"
        by (simp add: CountAndMakeRun_def a)
      with a True show ?thesis by (rule that(3))
    qed
  qed
qed

lemma CountAndMakeRun_mset:
  "mset (snd (CountAndMakeRun cmp a)) = mset a"
  "length (snd (CountAndMakeRun cmp a)) = length a"
proof -
  have r: "mset (rev (take n b) @ drop n b) = mset b" for n and b :: "'a list"
    by (metis append_take_drop_id mset_append mset_rev)
  show "mset (snd (CountAndMakeRun cmp a)) = mset a"
    by (cases rule: CountAndMakeRun_cases [of cmp a]) (simp_all only: snd_conv r)
  then show "length (snd (CountAndMakeRun cmp a)) = length a"
    by (rule mset_eq_length)
qed

lemma mset_Array_sort: "mset (Array_sort cmp a) = mset a"
proof (cases "length a < 2")
  case True
  then show ?thesis by (simp add: Array_sort_def)
next
  case False
  obtain r a' where c: "CountAndMakeRun cmp a = (r, a')" by (cases "CountAndMakeRun cmp a")
  have a': "mset a' = mset a" "length a' = length a"
    using CountAndMakeRun_mset [of cmp a] c by simp_all
  have "mset (BinaryInsertionSort cmp a' r) = mset a'"
    unfolding BinaryInsertionSort_def by (rule insertion_mset) simp
  then show ?thesis
    using False c a' by (simp add: Array_sort_def)
qed

lemma set_Array_sort: "set (Array_sort cmp a) = set a"
  by (rule mset_eq_setD [OF mset_Array_sort])


section \<open>The sort under a consistent comparator\<close>

lemma find_left_place:
  fixes key :: "'a \<Rightarrow> 'k::linorder"
  assumes "\<And>i. i < start \<Longrightarrow> negative (Compare cmp pivot (a ! i)) = (key pivot < key (a ! i))"
    and "\<And>i j. i \<le> j \<Longrightarrow> j < start \<Longrightarrow> key (a ! i) \<le> key (a ! j)"
    and "left \<le> right" and "right \<le> start"
    and "\<forall>i < left. key (a ! i) \<le> key pivot"
    and "\<forall>i. right \<le> i \<and> i < start \<longrightarrow> key pivot < key (a ! i)"
  shows "(\<forall>i < find_left cmp pivot a left right. key (a ! i) \<le> key pivot)
    \<and> (\<forall>i. find_left cmp pivot a left right \<le> i \<and> i < start \<longrightarrow> key pivot < key (a ! i))"
  using assms
proof (induction cmp pivot a left right rule: find_left.induct)
  case (1 cmp pivot a left right)
  show ?case
  proof (cases "left < right")
    case False
    then have "find_left cmp pivot a left right = left"
      by (simp add: find_left.simps)
    moreover have "left = right" using False "1.prems"(3) by simp
    ultimately show ?thesis using "1.prems"(5,6) by simp
  next
    case True
    let ?mid = "left + (right - left) div 2"
    have m: "left \<le> ?mid" "?mid < right" "?mid < start"
      using True "1.prems"(4) by auto
    show ?thesis
    proof (cases "negative (Compare cmp pivot (a ! ?mid))")
      case neg: True
      then have k: "key pivot < key (a ! ?mid)"
        using "1.prems"(1) [OF m(3)] by simp
      have above: "\<forall>i. ?mid \<le> i \<and> i < start \<longrightarrow> key pivot < key (a ! i)"
      proof (intro allI impI)
        fix i assume "?mid \<le> i \<and> i < start"
        then have "key (a ! ?mid) \<le> key (a ! i)" using "1.prems"(2) by simp
        with k show "key pivot < key (a ! i)" by simp
      qed
      have eq: "find_left cmp pivot a left right = find_left cmp pivot a left ?mid"
        using True neg by (subst find_left.simps) (simp add: Let_def)
      show ?thesis
        unfolding eq
        using "1.IH"(1) [OF True refl neg "1.prems"(1) "1.prems"(2) m(1) _ "1.prems"(5) above] m(3)
        by simp
    next
      case pos: False
      then have k: "key (a ! ?mid) \<le> key pivot"
        using "1.prems"(1) [OF m(3)] by simp
      have below: "\<forall>i < ?mid + 1. key (a ! i) \<le> key pivot"
      proof (intro allI impI)
        fix i assume "i < ?mid + 1"
        then have "key (a ! i) \<le> key (a ! ?mid)" using "1.prems"(2) m(3) by simp
        with k show "key (a ! i) \<le> key pivot" by simp
      qed
      have eq: "find_left cmp pivot a left right = find_left cmp pivot a (?mid + 1) right"
        using True pos by (subst find_left.simps) (simp add: Let_def)
      show ?thesis
        unfolding eq
        using "1.IH"(2) [OF True refl pos "1.prems"(1) "1.prems"(2) _ "1.prems"(4) below "1.prems"(6)]
          m(2)
        by simp
    qed
  qed
qed


lemma insert_pivot_step:
  fixes key :: "'a \<Rightarrow> 'k::linorder"
  assumes c: "\<And>x y. x \<in> set orig \<Longrightarrow> y \<in> set orig \<Longrightarrow>
        negative (Compare cmp x y) = (key x < key y)"
    and s: "start < length a" and len: "length a = length orig"
    and t: "take start a = sort_key key (take start orig)"
    and d: "drop start a = drop start orig"
  shows "length (insert_pivot cmp a start) = length orig
    \<and> take (Suc start) (insert_pivot cmp a start) = sort_key key (take (Suc start) orig)
    \<and> drop (Suc start) (insert_pivot cmp a start) = drop (Suc start) orig"
proof -
  let ?P = "take start a"
  let ?pivot = "a ! start"
  have s0: "start < length orig" using s len by simp
  have pivot: "?pivot = orig ! start"
    using hd_drop_conv_nth [OF s] hd_drop_conv_nth [OF s0] d by simp
  have pin: "?pivot \<in> set orig" using pivot s0 by simp
  have setP: "set ?P \<subseteq> set orig"
    unfolding t using set_take_subset [of start orig] by simp
  have lenP: "length ?P = start" using s by simp
  have sortedP: "sorted (map key ?P)" by (simp add: t)
  have nthP: "a ! i = ?P ! i" if "i < start" for i using that by simp
  have ain: "a ! i \<in> set orig" if "i < start" for i
    using that setP lenP nthP [OF that] nth_mem [of i ?P] by auto
  have cmp: "negative (Compare cmp ?pivot (a ! i)) = (key ?pivot < key (a ! i))" if "i < start" for i
    by (rule c [OF pin ain [OF that]])
  have mono: "key (a ! i) \<le> key (a ! j)" if "i \<le> j" "j < start" for i j
  proof -
    have "map key ?P ! i \<le> map key ?P ! j"
      using sorted_nth_mono [OF sortedP that(1)] that(2) lenP by simp
    then show ?thesis using that lenP by simp
  qed
  obtain l where l: "l \<le> start"
    and eq: "insert_pivot cmp a start =
      take l ?P @ ?pivot # drop l ?P @ drop (Suc start) a"
    and fl: "l = find_left cmp ?pivot a 0 start"
    using insert_pivot_split [OF s] by blast
  have place: "(\<forall>i < l. key (a ! i) \<le> key ?pivot)
      \<and> (\<forall>i. l \<le> i \<and> i < start \<longrightarrow> key ?pivot < key (a ! i))"
    unfolding fl by (rule find_left_place [OF cmp mono]) auto
  have low: "key x \<le> key ?pivot" if "x \<in> set (take l ?P)" for x
  proof -
    from that obtain i where "i < length (take l ?P)" "take l ?P ! i = x"
      by (auto simp: in_set_conv_nth)
    then have "i < l" "x = a ! i" using l lenP by auto
    then show ?thesis using place by simp
  qed
  have high: "key ?pivot < key x" if "x \<in> set (drop l ?P)" for x
  proof -
    from that obtain i where "i < length (drop l ?P)" "drop l ?P ! i = x"
      by (auto simp: in_set_conv_nth)
    then have "l + i < start" "x = a ! (l + i)" using l lenP by auto
    then show ?thesis using place by simp
  qed
  let ?Q = "take l ?P @ ?pivot # drop l ?P"
  have lenQ: "length ?Q = Suc start" using l lenP by simp
  have msetP: "mset ?P = mset (take start orig)" by (simp add: t)
  have take_Suc: "take (Suc start) orig = take start orig @ [?pivot]"
    using take_Suc_conv_app_nth [OF s0] pivot by simp
  have "mset (take l ?P) + mset (drop l ?P) = mset ?P"
    by (metis append_take_drop_id mset_append)
  then have msetQ: "mset ?Q = mset (take (Suc start) orig)"
    unfolding take_Suc using msetP by (simp add: ac_simps)
  have "sorted (take l (map key ?P))" and "sorted (drop l (map key ?P))"
    by (rule sorted_wrt_take [OF sortedP], rule sorted_wrt_drop [OF sortedP])
  then have sorted_low: "sorted (map key (take l ?P))"
    and sorted_high: "sorted (map key (drop l ?P))"
    by (simp_all only: take_map drop_map)
  have sortedQ: "sorted (map key ?Q)"
    using sorted_low sorted_high low high
    by (auto simp: sorted_append dest: less_imp_le intro: order_trans)
  have stable: "filter (\<lambda>x. key k = key x) ?Q = filter (\<lambda>x. key k = key x) (take (Suc start) orig)"
    for k
  proof -
    let ?f = "\<lambda>x. key k = key x"
    have fP: "filter ?f ?P = filter ?f (take start orig)"
      unfolding t using sort_key_stable [of key "key k" "take start orig"]
      by (simp add: eq_commute [of "key k"])
    have split: "filter ?f ?P = filter ?f (take l ?P) @ filter ?f (drop l ?P)"
      by (metis append_take_drop_id filter_append)
    show ?thesis
    proof (cases "key k = key ?pivot")
      case True
      have "key k \<noteq> key x" if "x \<in> set (drop l ?P)" for x
        using high [OF that] True by simp
      then have "filter ?f (drop l ?P) = []"
        by (simp add: filter_empty_conv)
      then show ?thesis
        unfolding take_Suc using True fP split by simp
    next
      case False
      then show ?thesis
        unfolding take_Suc using fP split by simp
    qed
  qed
  have Q: "sort_key key (take (Suc start) orig) = ?Q"
    by (rule properties_for_sort_key [OF msetQ stable sortedQ])
  have "drop (Suc start) a = drop (Suc start) orig"
    using d by (metis drop_drop plus_1_eq_Suc)
  then have rest: "drop (Suc start) a = drop (Suc start) orig" .
  have eq': "insert_pivot cmp a start = ?Q @ drop (Suc start) a"
    using eq by simp
  have tk: "take (length xs) (xs @ ys) = xs" and dr: "drop (length xs) (xs @ ys) = ys"
    for xs ys :: "'a list"
    by simp_all
  have "take (Suc start) (insert_pivot cmp a start) = ?Q"
    and "drop (Suc start) (insert_pivot cmp a start) = drop (Suc start) a"
    unfolding eq' using tk [of ?Q] dr [of ?Q] unfolding lenQ by this+
  moreover have "length (insert_pivot cmp a start) = length orig"
    using insert_pivot_mset(2) [OF s] len by simp
  ultimately show ?thesis
    using Q rest by simp
qed


lemma insertion_loop:
  fixes key :: "'a \<Rightarrow> 'k::linorder"
  assumes c: "\<And>x y. x \<in> set orig \<Longrightarrow> y \<in> set orig \<Longrightarrow>
        negative (Compare cmp x y) = (key x < key y)"
    and "length a = length orig"
    and "take s a = sort_key key (take s orig)"
    and "drop s a = drop s orig"
    and "s \<le> n" and "n \<le> length orig"
  shows "length (foldl (insert_pivot cmp) a [s..<n]) = length orig
    \<and> take n (foldl (insert_pivot cmp) a [s..<n]) = sort_key key (take n orig)
    \<and> drop n (foldl (insert_pivot cmp) a [s..<n]) = drop n orig"
  using assms(5,6)
proof (induction n)
  case 0
  then show ?case using assms(2,3,4) by simp
next
  case (Suc n)
  show ?case
  proof (cases "s = Suc n")
    case True
    then show ?thesis using assms(2,3,4) by simp
  next
    case False
    then have sn: "s \<le> n" using Suc.prems by simp
    let ?b = "foldl (insert_pivot cmp) a [s..<n]"
    have b: "length ?b = length orig \<and> take n ?b = sort_key key (take n orig) \<and> drop n ?b = drop n orig"
      using Suc.IH [OF sn] Suc.prems by simp
    then have n: "n < length ?b" using Suc.prems by simp
    have "foldl (insert_pivot cmp) a [s..<Suc n] = insert_pivot cmp ?b n"
      using sn by simp
    then show ?thesis
      using insert_pivot_step [where orig = orig and cmp = cmp and key = key, OF c n] b by simp
  qed
qed

lemma run_extends_ascending:
  fixes key :: "'a \<Rightarrow> 'k::linorder"
  assumes "\<And>x y. x \<in> S \<Longrightarrow> y \<in> S \<Longrightarrow> negative (Compare cmp x y) = (key x < key y)"
    and "prev \<in> S" and "set rest \<subseteq> S"
  shows "sorted (map key (prev # take (run_extends False cmp prev rest) rest))"
  using assms(2,3)
proof (induction rest arbitrary: prev)
  case Nil
  show ?case by simp
next
  case (Cons cur rest)
  have cur: "cur \<in> S" and rest: "set rest \<subseteq> S" using Cons.prems by simp_all
  show ?case
  proof (cases "negative (Compare cmp cur prev)")
    case True
    then show ?thesis by simp
  next
    case False
    then have "key prev \<le> key cur"
      using assms(1) [OF cur Cons.prems(1)] by simp
    then show ?thesis
      using False Cons.IH [OF cur rest] by (auto intro: order_trans)
  qed
qed

lemma run_extends_descending:
  fixes key :: "'a \<Rightarrow> 'k::linorder"
  assumes "\<And>x y. x \<in> S \<Longrightarrow> y \<in> S \<Longrightarrow> negative (Compare cmp x y) = (key x < key y)"
    and "prev \<in> S" and "set rest \<subseteq> S"
  shows "sorted_wrt (\<lambda>x y. key y < key x) (prev # take (run_extends True cmp prev rest) rest)"
  using assms(2,3)
proof (induction rest arbitrary: prev)
  case Nil
  show ?case by simp
next
  case (Cons cur rest)
  have cur: "cur \<in> S" and rest: "set rest \<subseteq> S" using Cons.prems by simp_all
  have tr: "transp (\<lambda>x y. key y < key x)" by (auto simp: transp_def)
  show ?case
  proof (cases "negative (Compare cmp cur prev)")
    case False
    then show ?thesis by simp
  next
    case True
    then have "key cur < key prev"
      using assms(1) [OF cur Cons.prems(1)] by simp
    then show ?thesis
      using True Cons.IH [OF cur rest] by (simp add: sorted_wrt2 [OF tr] del: sorted_wrt.simps)
  qed
qed

lemma filter_key_rev:
  assumes "distinct (map key D)"
  shows "filter (\<lambda>x. key k = key x) (rev D) = filter (\<lambda>x. key k = key x) D"
proof -
  have "length (filter (\<lambda>x. c = key x) D) \<le> 1" for c
    using assms by (induction D) (auto simp: filter_empty_conv image_iff)
  then have "length (filter (\<lambda>x. key k = key x) D) \<le> 1" .
  then have "rev (filter (\<lambda>x. key k = key x) D) = filter (\<lambda>x. key k = key x) D"
    by (cases "filter (\<lambda>x. key k = key x) D") (auto simp: le_Suc_eq)
  then show ?thesis by (simp add: rev_filter)
qed

lemma descending_run_reversed:
  fixes key :: "'a \<Rightarrow> 'k::linorder"
  assumes "sorted_wrt (\<lambda>x y. key y < key x) D"
  shows "sort_key key D = rev D"
proof (rule properties_for_sort_key)
  show "mset (rev D) = mset D" by simp
  have "sorted_wrt (\<lambda>x y. key x < key y) (rev D)"
    using assms by (simp add: sorted_wrt_rev)
  then have s: "sorted_wrt (<) (map key (rev D))"
    by (simp add: sorted_wrt_map)
  then show "sorted (map key (rev D))"
    by (rule strict_sorted_imp_sorted)
  have "distinct (map key (rev D))"
    using s by (simp add: strict_sorted_iff)
  then have "distinct (map key D)"
    by (simp add: rev_map [symmetric])
  then show "filter (\<lambda>x. key k = key x) (rev D) = filter (\<lambda>x. key k = key x) D" for k
    by (rule filter_key_rev)
qed

lemma CountAndMakeRun_sorts:
  fixes key :: "'a \<Rightarrow> 'k::linorder"
  assumes c: "\<And>x y. x \<in> set a \<Longrightarrow> y \<in> set a \<Longrightarrow>
        negative (Compare cmp x y) = (key x < key y)"
    and "CountAndMakeRun cmp a = (r, a')"
  shows "r \<le> length a \<and> length a' = length a
    \<and> take r a' = sort_key key (take r a) \<and> drop r a' = drop r a"
proof (cases rule: CountAndMakeRun_cases [of cmp a])
  case 1
  then have "r = length a" "a' = a" using assms(2) by simp_all
  moreover have "sort_key key a = a" using 1(2) by (cases a) (auto simp: le_Suc_eq)
  ultimately show ?thesis by simp
next
  case (2 elementHigh elementLow rest)
  let ?n = "run_extends False cmp elementLow rest"
  have r: "r = 2 + ?n" "a' = a" using 2(3) assms(2) by simp_all
  have n: "?n \<le> length rest" by (rule run_extends_le)
  have "key elementHigh \<le> key elementLow"
    using 2(2) c [of elementLow elementHigh] 2(1) by simp
  moreover have "sorted (map key (elementLow # take ?n rest))"
    by (rule run_extends_ascending [of "set a"]) (use c 2(1) in auto)
  ultimately have "sorted (map key (take r a))"
    unfolding r 2(1) by (auto intro: order_trans)
  then have "sort_key key (take r a) = take r a"
    by (rule sort_key_id_if_sorted)
  then show ?thesis
    using r n 2(1) by simp
next
  case (3 elementHigh elementLow rest)
  let ?n = "run_extends True cmp elementLow rest"
  have r: "r = 2 + ?n" "a' = rev (take r a) @ drop r a" using 3(3) assms(2) by simp_all
  have n: "?n \<le> length rest" by (rule run_extends_le)
  then have ra: "r \<le> length a" using r(1) 3(1) by simp
  have tr: "transp (\<lambda>x y. key y < key x)" by (auto simp: transp_def)
  have "key elementLow < key elementHigh"
    using 3(2) c [of elementLow elementHigh] 3(1) by simp
  moreover have "sorted_wrt (\<lambda>x y. key y < key x) (elementLow # take ?n rest)"
    by (rule run_extends_descending [of "set a"]) (use c 3(1) in auto)
  ultimately have "sorted_wrt (\<lambda>x y. key y < key x) (take r a)"
    unfolding r(1) 3(1) by (simp add: sorted_wrt2 [OF tr] del: sorted_wrt.simps)
  then have d: "sort_key key (take r a) = rev (take r a)"
    by (rule descending_run_reversed)
  have l: "length (rev (take r a)) = r" using ra by simp
  have tk: "take (length xs) (xs @ ys) = xs" and dr: "drop (length xs) (xs @ ys) = ys"
    for xs ys :: "'a list"
    by simp_all
  have "take r a' = rev (take r a)" and "drop r a' = drop r a"
    unfolding r(2) using tk [of "rev (take r a)"] dr [of "rev (take r a)"] unfolding l by this+
  moreover have "length a' = length a"
    using CountAndMakeRun_mset(2) [of cmp a] assms(2) by simp
  ultimately show ?thesis
    using ra d by simp
qed

lemma Array_sort_consistent:
  fixes key :: "'a \<Rightarrow> 'k::linorder"
  assumes c: "\<And>x y. x \<in> set a \<Longrightarrow> y \<in> set a \<Longrightarrow>
        negative (Compare cmp x y) = (key x < key y)"
  shows "Array_sort cmp a = sort_key key a"
proof (cases "length a < 2")
  case True
  then have "sort_key key a = a" by (cases a) (auto simp: le_Suc_eq)
  then show ?thesis using True by (simp add: Array_sort_def)
next
  case False
  obtain r a' where run: "CountAndMakeRun cmp a = (r, a')" by (cases "CountAndMakeRun cmp a")
  have inv: "r \<le> length a \<and> length a' = length a
      \<and> take r a' = sort_key key (take r a) \<and> drop r a' = drop r a"
    by (rule CountAndMakeRun_sorts [OF c run])
  have r0: "r \<noteq> 0"
    using run False by (cases rule: CountAndMakeRun_cases [of cmp a]) auto
  have "take (length a) (foldl (insert_pivot cmp) a' [r..<length a]) = sort_key key (take (length a) a)
      \<and> length (foldl (insert_pivot cmp) a' [r..<length a]) = length a"
    using insertion_loop [where orig = a and a = a' and s = r and n = "length a" and cmp = cmp
        and key = key, OF c] inv by simp
  then have "foldl (insert_pivot cmp) a' [r..<length a] = sort_key key a"
    by (metis order_refl take_all take_all_iff)
  then show ?thesis
    using False run r0 inv by (simp add: Array_sort_def BinaryInsertionSort_def)
qed

section \<open>Recomputing and reusing the listing\<close>

lemma getAllJobs_recompute:
  assumes "fst (cache_get (cache st) now) = None \<or> truthy jobValue"
  shows "getAllJobs st now jobValue =
    (listing jobValue (jobData st),
     st\<lparr>cache := Some (listing jobValue (jobData st), now + 10000)\<rparr>)"
  using assms
  by (auto simp: getAllJobs_def listing_def cache_set_def Let_def split: prod.splits)

lemma cache_get_hit: "now \<le> t \<Longrightarrow> cache_get (Some (js, t)) now = (Some js, Some (js, t))"
  by (simp add: cache_get_def)

lemma cache_get_expired: "t < now \<Longrightarrow> cache_get (Some (js, t)) now = (None, None)"
  by (simp add: cache_get_def)

lemma cache_get_empty: "cache_get None now = (None, None)"
  by (simp add: cache_get_def)

lemma getAllJobs_hit:
  assumes "cache st = Some (js, t)" and "now \<le> t" and "\<not> truthy jobValue"
  shows "getAllJobs st now jobValue = (js, st)"
  using assms by (simp add: getAllJobs_def cache_get_hit)

lemma getAllJobs_locks: "lockedJobs (snd (getAllJobs st now jobValue)) = lockedJobs st"
  by (simp add: getAllJobs_def Let_def split: prod.splits)

lemma getAllJobs_jobData: "jobData (snd (getAllJobs st now jobValue)) = jobData st"
  by (simp add: getAllJobs_def Let_def split: prod.splits)

lemma collect_filter:
  "collect jobValue m =
     map (\<lambda>(k, v). \<lparr>JobID = k, JobValue = v\<rparr>)
       (filter (\<lambda>(k, v). \<not> truthy jobValue \<or> js_ge v jobValue) m)"
proof (induction m)
  case Nil
  show ?case by simp
next
  case (Cons p m)
  then show ?case by (cases p) simp
qed

lemma set_listing:
  "set (listing jobValue m) =
     {\<lparr>JobID = k, JobValue = v\<rparr> | k v.
        (k, v) \<in> set m \<and> (\<not> truthy jobValue \<or> js_ge v jobValue)}"
  by (auto simp: listing_def set_Array_sort collect_filter)

lemma listing_unfiltered: "\<not> truthy jobValue \<Longrightarrow> listing jobValue m = listing Undefined m"
  by (simp add: listing_def collect_filter)

section \<open>The order of a recomputed listing\<close>

lemma rank_eq_iff: "a \<noteq> NaN \<Longrightarrow> b \<noteq> NaN \<Longrightarrow> rank a = rank b \<longleftrightarrow> a = b"
  by (cases a; cases b) simp_all

lemma by_value_consistent:
  assumes "numeric (JobValue x)" and "numeric (JobValue y)"
  shows "negative (Compare by_value x y) =
    (value_rank (JobValue x) < value_rank (JobValue y))"
  using assms
  by (cases "to_number (JobValue x)"; cases "to_number (JobValue y)")
    (simp_all add: Compare_def negative_def num_less_def by_value_def js_sub_def numeric_def
      value_rank_def)

lemma collect_numeric:
  assumes "\<forall>(k, v) \<in> set m. numeric v"
  shows "\<forall>a \<in> set (collect jobValue m). numeric (JobValue a)"
  using assms by (auto simp: collect_filter)

lemma listing_sort_key:
  assumes "\<forall>(k, v) \<in> set m. numeric v"
  shows "listing jobValue m = sort_key (\<lambda>j. value_rank (JobValue j)) (collect jobValue m)"
  unfolding listing_def
proof (rule Array_sort_consistent)
  fix x y
  assume "x \<in> set (collect jobValue m)" and "y \<in> set (collect jobValue m)"
  then have "numeric (JobValue x)" and "numeric (JobValue y)"
    using collect_numeric [OF assms] by simp_all
  then show "negative (Compare by_value x y) =
      (value_rank (JobValue x) < value_rank (JobValue y))"
    by (rule by_value_consistent)
qed

text \<open>
  C7, as amended.  When every stored value has a numeric reading, a listing that is
  recomputed (the cache has no live entry, or a filter is given) is in ascending order of
  that reading, and the entries whose value reads as any one number \<open>x\<close> are, in order,
  the entries of that reading which the enumeration of the store yields and the filter
  keeps: the sort is stable.  The listing holds exactly the entries kept.
\<close>

theorem recomputed_listing_sorted_stable:
  assumes "\<forall>(k, v) \<in> set (jobData st). numeric v"
    and "fst (cache_get (cache st) now) = None \<or> truthy jobValue"
  shows "sorted (map (\<lambda>j. value_rank (JobValue j)) (fst (getAllJobs st now jobValue)))
    \<and> filter (\<lambda>j. to_number (JobValue j) = x) (fst (getAllJobs st now jobValue)) =
        map (\<lambda>(k, v). \<lparr>JobID = k, JobValue = v\<rparr>)
          (filter (\<lambda>(k, v). (\<not> truthy jobValue \<or> js_ge v jobValue) \<and> to_number v = x)
             (jobData st))
    \<and> mset (fst (getAllJobs st now jobValue)) = mset (collect jobValue (jobData st))"
proof -
  let ?key = "\<lambda>j. value_rank (JobValue j)"
  let ?kept = "collect jobValue (jobData st)"
  let ?reads = "\<lambda>j. to_number (JobValue j) = x"
  have r: "fst (getAllJobs st now jobValue) = sort_key ?key ?kept"
    by (simp add: getAllJobs_recompute [OF assms(2)] listing_sort_key [OF assms(1)])
  have num: "to_number (JobValue j) \<noteq> NaN" if "j \<in> set ?kept" for j
    using collect_numeric [OF assms(1), of jobValue] that by (auto simp: numeric_def)
  have same: "filter ?reads (sort_key ?key ?kept) = filter ?reads ?kept"
  proof (cases "x = NaN")
    case True
    then have "filter ?reads (sort_key ?key ?kept) = []" and "filter ?reads ?kept = []"
      using num by (auto simp: filter_empty_conv)
    then show ?thesis by simp
  next
    case False
    have e: "?reads j = (?key j = rank x)" if "j \<in> set ?kept" for j
      using rank_eq_iff [OF num [OF that] False] by (simp add: value_rank_def)
    have "filter ?reads (sort_key ?key ?kept) =
        filter (\<lambda>j. ?key j = rank x) (sort_key ?key ?kept)"
      by (rule filter_cong [OF refl]) (simp add: e)
    moreover have "filter ?reads ?kept = filter (\<lambda>j. ?key j = rank x) ?kept"
      by (rule filter_cong [OF refl]) (simp add: e)
    ultimately show ?thesis by (simp add: sort_key_stable)
  qed
  have "filter ?reads ?kept =
      map (\<lambda>(k, v). \<lparr>JobID = k, JobValue = v\<rparr>)
        (filter (\<lambda>(k, v). (\<not> truthy jobValue \<or> js_ge v jobValue) \<and> to_number v = x)
           (jobData st))"
    by (induction "jobData st" arbitrary: st) (auto simp: collect_filter filter_map o_def split_def)
  then show ?thesis
    unfolding r using same by simp
qed

theorem recomputed_listing_sorted_stable_witness:
  "sorted (map (\<lambda>j. value_rank (JobValue j)) (fst (getAllJobs four_jobs 0 Undefined)))
   \<and> filter (\<lambda>j. to_number (JobValue j) = Fin 5) (fst (getAllJobs four_jobs 0 Undefined)) =
       [\<lparr>JobID = Str ''B'', JobValue = Str ''5''\<rparr>, \<lparr>JobID = Str ''D'', JobValue = Str ''5''\<rparr>]
   \<and> filter (\<lambda>j. to_number (JobValue j) = Fin 10) (fst (getAllJobs four_jobs 0 Undefined)) =
       [\<lparr>JobID = Str ''A'', JobValue = Str ''10''\<rparr>, \<lparr>JobID = Str ''C'', JobValue = Str ''10''\<rparr>]"
proof -
  have h1: "\<forall>(k, v) \<in> set (jobData four_jobs). numeric v"
    by (simp add: four_jobs_def numeric_def text_numbers)
  have h2: "fst (cache_get (cache four_jobs) 0) = None \<or> truthy Undefined"
    by (simp add: four_jobs_def cache_get_def)
  show ?thesis
    using recomputed_listing_sorted_stable [OF h1 h2, of "Fin 5"]
      recomputed_listing_sorted_stable [OF h1 h2, of "Fin 10"]
    by (simp add: four_jobs_def text_numbers)
qed

text \<open>
  C7 as stated is for every store state.  \<^verbatim>\<open>addJob\<close> takes any text that is not empty
  for a value: after \<^verbatim>\<open>POST /add\<close> of A with 7, B with \<^verbatim>\<open>x\<close> and C with 3, the
  listing is A, B, C, with 7 before 3.  The comparator gives \<open>NaN\<close> against B, the engine
  takes the whole array for a run already in order, and nothing moves.
\<close>

theorem text_value_breaks_order:
  "snd (post_add (snd (post_add (snd (post_add init [(''jobid'', ''A''), (''jobValue'', ''7'')]))
      [(''jobid'', ''B''), (''jobValue'', ''x'')])) [(''jobid'', ''C''), (''jobValue'', ''3'')])
     = seven_x_three
   \<and> fst (get_all seven_x_three 0 []) =
       Data [\<lparr>JobID = Str ''A'', JobValue = Str ''7''\<rparr>, \<lparr>JobID = Str ''B'', JobValue = Str ''x''\<rparr>,
         \<lparr>JobID = Str ''C'', JobValue = Str ''3''\<rparr>]
   \<and> to_number (Str ''7'') = Fin 7 \<and> to_number (Str ''x'') = NaN \<and> to_number (Str ''3'') = Fin 3
   \<and> \<not> sorted (map (\<lambda>j. value_rank (JobValue j)) (fst (getAllJobs seven_x_three 0 Undefined)))"
  by (simp add: post_add_def get_all_def field_def run_defs seven_x_three_def value_defs)

section \<open>The cached listing\<close>

text \<open>
  C6.  An unfiltered listing asked for while the cache holds an entry whose deadline has
  not passed is that entry, and the registry is left as it was.  So a second unfiltered
  listing, asked for before the deadline of the entry that the first one left in the
  cache (10 seconds after the first, when the first recomputed), returns what the first
  returned.  Once the deadline has passed, the listing is recomputed from the store.
\<close>

theorem unfiltered_listing_cached:
  assumes "\<not> truthy jobValue"
  shows "(cache st = Some (js, t) \<and> now \<le> t \<longrightarrow> getAllJobs st now jobValue = (js, st))
    \<and> (\<not> truthy jobValue' \<and> cache (snd (getAllJobs st now jobValue)) = Some (js', t')
          \<and> now' \<le> t' \<longrightarrow>
        getAllJobs (snd (getAllJobs st now jobValue)) now' jobValue' =
          (fst (getAllJobs st now jobValue), snd (getAllJobs st now jobValue)))
    \<and> (fst (cache_get (cache st) now) = None \<longrightarrow>
        cache (snd (getAllJobs st now jobValue)) =
          Some (fst (getAllJobs st now jobValue), now + 10000))
    \<and> (cache st = Some (js, t) \<and> t < now \<longrightarrow>
        fst (getAllJobs st now jobValue) = listing jobValue (jobData st))"
proof (intro conjI impI)
  assume "cache st = Some (js, t) \<and> now \<le> t"
  then show "getAllJobs st now jobValue = (js, st)"
    using assms by (simp add: getAllJobs_hit)
next
  assume a: "\<not> truthy jobValue' \<and> cache (snd (getAllJobs st now jobValue)) = Some (js', t')
    \<and> now' \<le> t'"
  have "js' = fst (getAllJobs st now jobValue)"
  proof (cases "fst (cache_get (cache st) now)")
    case None
    then show ?thesis
      using a by (simp add: getAllJobs_recompute)
  next
    case (Some cached)
    then obtain d where c: "cache st = Some (cached, d)" and d: "now \<le> d"
      by (auto simp: cache_get_def split: option.splits if_splits)
    show ?thesis
      using a assms c by (simp add: getAllJobs_hit [OF c d])
  qed
  with a show "getAllJobs (snd (getAllJobs st now jobValue)) now' jobValue' =
      (fst (getAllJobs st now jobValue), snd (getAllJobs st now jobValue))"
    by (simp add: getAllJobs_hit)
next
  assume "fst (cache_get (cache st) now) = None"
  then show "cache (snd (getAllJobs st now jobValue)) =
      Some (fst (getAllJobs st now jobValue), now + 10000)"
    by (simp add: getAllJobs_recompute)
next
  assume "cache st = Some (js, t) \<and> t < now"
  then show "fst (getAllJobs st now jobValue) = listing jobValue (jobData st)"
    by (simp add: getAllJobs_recompute cache_get_expired)
qed

theorem unfiltered_listing_cached_witness:
  "getAllJobs one_job 10000 Undefined =
     ([\<lparr>JobID = Str ''A'', JobValue = Str ''5''\<rparr>], one_job)
   \<and> getAllJobs (snd (getAllJobs two_jobs 0 Undefined)) 10000 (Str '''') =
       (fst (getAllJobs two_jobs 0 Undefined), snd (getAllJobs two_jobs 0 Undefined))
   \<and> cache (snd (getAllJobs two_jobs 0 Undefined)) =
       Some (fst (getAllJobs two_jobs 0 Undefined), 10000)
   \<and> fst (getAllJobs filtered_cached 10001 Undefined) =
       [\<lparr>JobID = Str ''A'', JobValue = Str ''5''\<rparr>, \<lparr>JobID = Str ''B'', JobValue = Str ''7''\<rparr>]"
proof -
  have f: "\<not> truthy Undefined" by simp
  note inst = unfiltered_listing_cached [OF f, where jobValue' = "Str []"]
  have hit: "getAllJobs one_job 10000 Undefined =
      ([\<lparr>JobID = Str ''A'', JobValue = Str ''5''\<rparr>], one_job)"
    using inst [where st = one_job and now = 10000 and t = 10000 and now' = 0 and t' = 0
        and js = "[\<lparr>JobID = Str ''A'', JobValue = Str ''5''\<rparr>]" and js' = "[]"]
    by (simp add: one_job_def)
  have stored: "cache (snd (getAllJobs two_jobs 0 Undefined)) =
      Some (fst (getAllJobs two_jobs 0 Undefined), 10000)"
    using inst [where st = two_jobs and now = 0 and t = 0 and now' = 0 and t' = 0
        and js = "[]" and js' = "[]"]
    by (simp add: two_jobs_def cache_get_def)
  have twice: "getAllJobs (snd (getAllJobs two_jobs 0 Undefined)) 10000 (Str []) =
      (fst (getAllJobs two_jobs 0 Undefined), snd (getAllJobs two_jobs 0 Undefined))"
    using stored inst [where st = two_jobs and now = 0 and t = 0 and now' = 10000
        and t' = 10000 and js = "[]" and js' = "fst (getAllJobs two_jobs 0 Undefined)"]
    by simp
  have expired: "fst (getAllJobs filtered_cached 10001 Undefined) =
      [\<lparr>JobID = Str ''A'', JobValue = Str ''5''\<rparr>, \<lparr>JobID = Str ''B'', JobValue = Str ''7''\<rparr>]"
    using inst [where st = filtered_cached and now = 10001
        and t = 10000 and now' = 0 and t' = 0
        and js = "[\<lparr>JobID = Str ''B'', JobValue = Str ''7''\<rparr>]" and js' = "[]"]
    by (simp add: filtered_cached_def two_jobs_def listing_def sort_defs)
  show ?thesis
    using hit stored twice expired by simp
qed

section \<open>Invalidation\<close>

lemma getAllJobs_unfiltered_coherent:
  assumes "coherent st" and "\<not> truthy jobValue"
  shows "fst (getAllJobs st now jobValue) = listing Undefined (jobData st)"
    and "coherent (snd (getAllJobs st now jobValue))"
proof -
  show "fst (getAllJobs st now jobValue) = listing Undefined (jobData st)"
  proof (cases "fst (cache_get (cache st) now)")
    case None
    then show ?thesis
      by (simp add: getAllJobs_recompute listing_unfiltered [OF assms(2)])
  next
    case (Some cached)
    then obtain d where c: "cache st = Some (cached, d)" and d: "now \<le> d"
      by (auto simp: cache_get_def split: option.splits if_splits)
    show ?thesis
      using assms c by (simp add: getAllJobs_hit [OF c d] coherent_def)
  qed
  show "coherent (snd (getAllJobs st now jobValue))"
  proof (cases "fst (cache_get (cache st) now)")
    case None
    then show ?thesis
      by (simp add: getAllJobs_recompute listing_unfiltered [OF assms(2)] coherent_def)
  next
    case (Some cached)
    then obtain d where c: "cache st = Some (cached, d)" and d: "now \<le> d"
      by (auto simp: cache_get_def split: option.splits if_splits)
    show ?thesis
      using assms by (simp add: getAllJobs_hit [OF c d])
  qed
qed

lemma listings_unfiltered:
  assumes "coherent st" and "\<forall>(t, f) \<in> set calls. \<not> truthy f"
  shows "\<forall>r \<in> set (listings st calls). r = listing Undefined (jobData st)"
  using assms
proof (induction calls arbitrary: st)
  case Nil
  show ?case by simp
next
  case (Cons c calls)
  obtain now f where c: "c = (now, f)" by (cases c)
  have f: "\<not> truthy f" using Cons.prems(2) c by simp
  have rest: "\<forall>(t, f) \<in> set calls. \<not> truthy f" using Cons.prems(2) by simp
  have "\<forall>r \<in> set (listings (snd (getAllJobs st now f)) calls).
      r = listing Undefined (jobData (snd (getAllJobs st now f)))"
    by (rule Cons.IH [OF getAllJobs_unfiltered_coherent(2) [OF Cons.prems(1) f] rest])
  then show ?case
    using getAllJobs_unfiltered_coherent(1) [OF Cons.prems(1) f]
    by (simp add: c getAllJobs_jobData)
qed

lemma coherent_no_cache: "cache st = None \<Longrightarrow> coherent st"
  by (simp add: coherent_def)

lemma getAllJobs_no_cache:
  "cache st = None \<Longrightarrow> fst (getAllJobs st now jobValue) = listing jobValue (jobData st)"
  by (simp add: getAllJobs_recompute cache_get_empty)

lemma listing_has_added:
  assumes "\<not> truthy f \<or> js_ge v f"
  shows "\<lparr>JobID = k, JobValue = v\<rparr> \<in> set (listing f (Map_set m k v))"
  using assms Map_set_member [of k v m] by (auto simp: set_listing)

lemma listing_lacks_removed:
  "\<forall>j \<in> set (listing f (Map_delete m k)). JobID j \<noteq> k"
  by (auto simp: set_listing Map_delete_def)

lemma addJob_resume_reflects:
  "Map_has (jobData (addJob_resume st jobid jobValue)) jobid
   \<and> cache (addJob_resume st jobid jobValue) = None
   \<and> fst (getAllJobs (addJob_resume st jobid jobValue) now f) =
       listing f (jobData (addJob_resume st jobid jobValue))
   \<and> (\<not> truthy f \<or> js_ge jobValue f \<longrightarrow>
       \<lparr>JobID = jobid, JobValue = jobValue\<rparr>
         \<in> set (fst (getAllJobs (addJob_resume st jobid jobValue) now f)))
   \<and> ((\<forall>(t, f) \<in> set calls. \<not> truthy f) \<longrightarrow>
       (\<forall>r \<in> set (listings (addJob_resume st jobid jobValue) calls).
          r = listing Undefined (jobData (addJob_resume st jobid jobValue))
          \<and> \<lparr>JobID = jobid, JobValue = jobValue\<rparr> \<in> set r))"
proof -
  let ?st = "addJob_resume st jobid jobValue"
  have c: "cache ?st = None" by (rule cache_addJob_resume)
  have l: "fst (getAllJobs ?st now f) = listing f (jobData ?st)"
    by (rule getAllJobs_no_cache [OF c])
  have m: "\<lparr>JobID = jobid, JobValue = jobValue\<rparr> \<in> set (listing Undefined (jobData ?st))"
    by (simp add: jobData_addJob_resume listing_has_added)
  have h: "Map_has (jobData ?st) jobid"
    by (simp add: jobData_addJob_resume Map_has_Map_set)
  have k: "\<not> truthy f \<or> js_ge jobValue f \<longrightarrow>
      \<lparr>JobID = jobid, JobValue = jobValue\<rparr> \<in> set (fst (getAllJobs ?st now f))"
    by (simp add: l jobData_addJob_resume listing_has_added)
  have s: "(\<forall>(t, f) \<in> set calls. \<not> truthy f) \<longrightarrow>
      (\<forall>r \<in> set (listings ?st calls).
         r = listing Undefined (jobData ?st) \<and> \<lparr>JobID = jobid, JobValue = jobValue\<rparr> \<in> set r)"
  proof (intro impI ballI)
    fix r
    assume u: "\<forall>(t, f) \<in> set calls. \<not> truthy f" and r: "r \<in> set (listings ?st calls)"
    have "r = listing Undefined (jobData ?st)"
      by (rule bspec [OF listings_unfiltered [OF coherent_no_cache [OF c] u] r])
    with m show "r = listing Undefined (jobData ?st)
        \<and> \<lparr>JobID = jobid, JobValue = jobValue\<rparr> \<in> set r"
      by simp
  qed
  show ?thesis
    using h c l k s by - (intro conjI, assumption+)
qed

lemma removeJob_resume_reflects:
  "\<not> Map_has (jobData (removeJob_resume st jobid)) jobid
   \<and> cache (removeJob_resume st jobid) = None
   \<and> fst (getAllJobs (removeJob_resume st jobid) now f) =
       listing f (jobData (removeJob_resume st jobid))
   \<and> (\<forall>j \<in> set (fst (getAllJobs (removeJob_resume st jobid) now f)). JobID j \<noteq> jobid)
   \<and> ((\<forall>(t, f) \<in> set calls. \<not> truthy f) \<longrightarrow>
       (\<forall>r \<in> set (listings (removeJob_resume st jobid) calls).
          r = listing Undefined (jobData (removeJob_resume st jobid))
          \<and> (\<forall>j \<in> set r. JobID j \<noteq> jobid)))"
proof -
  let ?st = "removeJob_resume st jobid"
  have c: "cache ?st = None" by (rule cache_removeJob_resume)
  have l: "fst (getAllJobs ?st now f) = listing f (jobData ?st)"
    by (rule getAllJobs_no_cache [OF c])
  have n: "\<forall>j \<in> set (listing f' (jobData ?st)). JobID j \<noteq> jobid" for f'
    by (simp add: jobData_removeJob_resume listing_lacks_removed)
  have h: "\<not> Map_has (jobData ?st) jobid"
    by (simp add: jobData_removeJob_resume Map_has_Map_delete)
  have k: "\<forall>j \<in> set (fst (getAllJobs ?st now f)). JobID j \<noteq> jobid"
    using n [of f] by (simp add: l)
  have s: "(\<forall>(t, f) \<in> set calls. \<not> truthy f) \<longrightarrow>
      (\<forall>r \<in> set (listings ?st calls).
         r = listing Undefined (jobData ?st) \<and> (\<forall>j \<in> set r. JobID j \<noteq> jobid))"
  proof (intro impI ballI)
    fix r
    assume u: "\<forall>(t, f) \<in> set calls. \<not> truthy f" and r: "r \<in> set (listings ?st calls)"
    have "r = listing Undefined (jobData ?st)"
      by (rule bspec [OF listings_unfiltered [OF coherent_no_cache [OF c] u] r])
    with n [of Undefined] show "r = listing Undefined (jobData ?st)
        \<and> (\<forall>j \<in> set r. JobID j \<noteq> jobid)"
      by simp
  qed
  show ?thesis
    using h c l k s by - (intro conjI, assumption+)
qed

text \<open>
  C4 says that after a successful \<^verbatim>\<open>addJob\<close> any later listing reflects the addition.
  The call does leave the identifier in the store and the cache empty (the two lemmas
  above), but a listing with a filter then stores what it returns under the one key of the
  cache.  From \<open>one_job\<close>, \<^verbatim>\<open>POST /add?jobid=B&jobValue=3\<close> succeeds; then
  \<^verbatim>\<open>GET /all?jobValue=4\<close> at time 1000 answers with the job A and caches that listing,
  and \<^verbatim>\<open>GET /all\<close> at time 2000 answers with the job A alone, while the store has B.
\<close>

theorem added_job_missing_from_listing:
  "post_add one_job [(''jobid'', ''B''), (''jobValue'', ''3'')] = (Stat_ok, three_added)
   \<and> Map_has (jobData three_added) (Str ''B'')
   \<and> cache three_added = None
   \<and> get_all three_added 1000 [(''jobValue'', ''4'')] =
       (Data [\<lparr>JobID = Str ''A'', JobValue = Str ''5''\<rparr>], three_hidden)
   \<and> get_all three_hidden 2000 [] =
       (Data [\<lparr>JobID = Str ''A'', JobValue = Str ''5''\<rparr>], three_hidden)
   \<and> listing Undefined (jobData three_hidden) =
       [\<lparr>JobID = Str ''B'', JobValue = Str ''3''\<rparr>, \<lparr>JobID = Str ''A'', JobValue = Str ''5''\<rparr>]"
  by (simp add: post_add_def get_all_def field_def run_defs one_job_def three_added_def
      three_hidden_def listing_def sort_defs)

section \<open>A listing with a filter\<close>

lemma filtered_call_stores:
  "truthy jobValue \<Longrightarrow>
   cache (snd (getAllJobs st now jobValue)) = Some (listing jobValue (jobData st), now + 10000)"
  by (simp add: getAllJobs_recompute)

text \<open>
  C2 says that a listing with a filter neither reads nor writes the cache.  The code
  stores every listing it computes under the one key.  After \<^verbatim>\<open>POST /add?jobid=A&jobValue=5\<close>
  and \<^verbatim>\<open>POST /add?jobid=B&jobValue=7\<close>, the request \<^verbatim>\<open>GET /all?jobValue=6\<close> at time
  0 answers with the job B and leaves that listing in the cache, and \<^verbatim>\<open>GET /all\<close> one
  second later answers with the job B alone, while the store has A and B.
\<close>

theorem filtered_listing_overwrites_cache:
  "snd (post_add (snd (post_add init [(''jobid'', ''A''), (''jobValue'', ''5'')]))
      [(''jobid'', ''B''), (''jobValue'', ''7'')]) = two_jobs
   \<and> get_all two_jobs 0 [(''jobValue'', ''6'')] =
       (Data [\<lparr>JobID = Str ''B'', JobValue = Str ''7''\<rparr>], filtered_cached)
   \<and> cache filtered_cached = Some ([\<lparr>JobID = Str ''B'', JobValue = Str ''7''\<rparr>], 10000)
   \<and> get_all filtered_cached 1000 [] =
       (Data [\<lparr>JobID = Str ''B'', JobValue = Str ''7''\<rparr>], filtered_cached)
   \<and> listing Undefined (jobData filtered_cached) =
       [\<lparr>JobID = Str ''A'', JobValue = Str ''5''\<rparr>, \<lparr>JobID = Str ''B'', JobValue = Str ''7''\<rparr>]"
  by (simp add: post_add_def get_all_def field_def run_defs two_jobs_def filtered_cached_def
      listing_def sort_defs)

text \<open>
  C1 says that the filter compares numerically, the text of the request being turned
  into a number first.  The code compares the stored value with the filter as they are, and
  two texts are compared as strings.  After \<^verbatim>\<open>POST /add?jobid=A&jobValue=5\<close> and
  \<^verbatim>\<open>POST /add?jobid=B&jobValue=10\<close>, the request \<^verbatim>\<open>GET /all?jobValue=6\<close> answers
  with no job at all: \<^verbatim>\<open>"10" >= "6"\<close> is false.  With the number 6 for a filter, the
  same store yields the job B.
\<close>

theorem text_filter_drops_ten:
  "snd (post_add (snd (post_add init [(''jobid'', ''A''), (''jobValue'', ''5'')]))
      [(''jobid'', ''B''), (''jobValue'', ''10'')]) = five_ten
   \<and> fst (get_all five_ten 0 [(''jobValue'', ''6'')]) = Data []
   \<and> js_ge (Str ''10'') (Str ''6'') = False
   \<and> to_number (Str ''10'') = Fin 10 \<and> to_number (Str ''6'') = Fin 6
   \<and> fst (getAllJobs five_ten 0 (Num (Fin 6))) = [\<lparr>JobID = Str ''B'', JobValue = Str ''10''\<rparr>]"
  by (simp add: post_add_def get_all_def field_def run_defs five_ten_def sort_defs)

section \<open>The lock set\<close>

lemma lockedJobs_resume: "lockedJobs (resume st c) = lockedJobs st - {call_id c}"
  by (cases c) (simp_all add: lockedJobs_addJob_resume lockedJobs_removeJob_resume)

lemma addJob_start_cases:
  obtains (failed) e where "addJob_start st jobid jobValue = (Inl e, st)"
  | (started) "jobid \<notin> lockedJobs st"
      "addJob_start st jobid jobValue = (Inr (), st\<lparr>lockedJobs := insert jobid (lockedJobs st)\<rparr>)"
proof (cases "fst (addJob_start st jobid jobValue)")
  case (Inl e)
  then have "addJob_start st jobid jobValue = (Inl e, st)"
    using addJob_start_error_state [of st jobid jobValue e] by (simp add: prod_eq_iff)
  then show ?thesis by (rule failed)
next
  case (Inr u)
  then have "jobid \<notin> lockedJobs st"
    and "addJob_start st jobid jobValue = (Inr (), st\<lparr>lockedJobs := insert jobid (lockedJobs st)\<rparr>)"
    by (auto simp: addJob_start_def validateJobInput_def split: if_splits)
  then show ?thesis by (rule started)
qed

lemma removeJob_start_cases:
  obtains (failed) e where "removeJob_start st jobid = (Inl e, st)"
  | (started) "jobid \<notin> lockedJobs st"
      "removeJob_start st jobid = (Inr (), st\<lparr>lockedJobs := insert jobid (lockedJobs st)\<rparr>)"
proof (cases "fst (removeJob_start st jobid)")
  case (Inl e)
  then have "removeJob_start st jobid = (Inl e, st)"
    using removeJob_start_error_state [of st jobid e] by (simp add: prod_eq_iff)
  then show ?thesis by (rule failed)
next
  case (Inr u)
  then have "jobid \<notin> lockedJobs st"
    and "removeJob_start st jobid = (Inr (), st\<lparr>lockedJobs := insert jobid (lockedJobs st)\<rparr>)"
    by (auto simp: removeJob_start_def validateJobInput_def split: if_splits)
  then show ?thesis by (rule started)
qed

lemma step_locks:
  assumes "lockedJobs (registry s) = call_id ` set (in_flight s)"
    and "distinct (map call_id (in_flight s))"
  shows "lockedJobs (registry (step s ev)) = call_id ` set (in_flight (step s ev))
    \<and> distinct (map call_id (in_flight (step s ev)))"
proof (cases ev)
  case (Add_call jobid jobValue)
  show ?thesis
  proof (cases rule: addJob_start_cases [of "registry s" jobid jobValue])
    case (failed e)
    then show ?thesis using assms Add_call by simp
  next
    case started
    then show ?thesis using assms Add_call by auto
  qed
next
  case (Remove_call jobid)
  show ?thesis
  proof (cases rule: removeJob_start_cases [of "registry s" jobid])
    case (failed e)
    then show ?thesis using assms Remove_call by simp
  next
    case started
    then show ?thesis using assms Remove_call by auto
  qed
next
  case (List_call now jobValue)
  then show ?thesis using assms by (simp add: getAllJobs_locks)
next
  case (Resume i)
  show ?thesis
  proof (cases "i < length (in_flight s)")
    case False
    then show ?thesis using assms Resume by simp
  next
    case True
    let ?c = "in_flight s ! i"
    let ?rest = "take i (in_flight s) @ drop (Suc i) (in_flight s)"
    have split: "in_flight s = take i (in_flight s) @ ?c # drop (Suc i) (in_flight s)"
      by (rule id_take_nth_drop [OF True])
    have d: "distinct (map call_id (take i (in_flight s) @ ?c # drop (Suc i) (in_flight s)))"
      using assms(2) split by simp
    then have fresh: "call_id ?c \<notin> call_id ` set ?rest" and rest: "distinct (map call_id ?rest)"
      by auto
    have "call_id ` set (in_flight s) = insert (call_id ?c) (call_id ` set ?rest)"
      by (subst split) auto
    then have "lockedJobs (registry s) - {call_id ?c} = call_id ` set ?rest"
      using assms(1) fresh by auto
    then show ?thesis
      using True Resume rest by (simp add: lockedJobs_resume)
  qed
qed

lemma run_snoc: "run (evs @ [ev]) = step (run evs) ev"
  by (simp add: run_def)

lemma run_locks:
  "lockedJobs (registry (run evs)) = call_id ` set (in_flight (run evs))
   \<and> distinct (map call_id (in_flight (run evs)))"
proof (induction evs rule: rev_induct)
  case Nil
  show ?case by (simp add: run_def boot_def init_def)
next
  case (snoc ev evs)
  then show ?case
    unfolding run_snoc by (intro step_locks) simp_all
qed

text \<open>
  C9, as amended.  In every run of the server the lock set is the set of the identifiers
  of the calls in flight, and no two calls in flight have the same identifier: a call holds
  its lock from the moment its first half ends until its second half runs, which releases
  it, and the call is then no longer in flight.  So after a call of \<^verbatim>\<open>addJob\<close> or
  \<^verbatim>\<open>removeJob\<close> that succeeds, its identifier is not in the lock set.  A call that
  fails takes no lock and leaves the lock set as it found it.
\<close>

theorem lock_held_while_in_flight:
  "lockedJobs (registry (run evs)) = call_id ` set (in_flight (run evs))
   \<and> distinct (map call_id (in_flight (run evs)))
   \<and> (i < length (in_flight (run evs)) \<longrightarrow>
        call_id (in_flight (run evs) ! i)
          \<notin> lockedJobs (registry (step (run evs) (Resume i))))
   \<and> (fst (addJob_start st jobid jobValue) = Inl e \<longrightarrow>
        lockedJobs (snd (addJob_start st jobid jobValue)) = lockedJobs st)
   \<and> (fst (removeJob_start st jobid) = Inl e \<longrightarrow>
        lockedJobs (snd (removeJob_start st jobid)) = lockedJobs st)
   \<and> (fst (addJob st jobid jobValue) = Inr () \<longrightarrow>
        jobid \<notin> lockedJobs (snd (addJob st jobid jobValue)))
   \<and> (fst (removeJob st jobid) = Inr () \<longrightarrow>
        jobid \<notin> lockedJobs (snd (removeJob st jobid)))
   \<and> jobid \<notin> lockedJobs (addJob_resume st jobid jobValue)
   \<and> jobid \<notin> lockedJobs (removeJob_resume st jobid)"
proof (intro conjI impI)
  show "lockedJobs (registry (run evs)) = call_id ` set (in_flight (run evs))"
    and "distinct (map call_id (in_flight (run evs)))"
    using run_locks [of evs] by simp_all
next
  assume "i < length (in_flight (run evs))"
  then show "call_id (in_flight (run evs) ! i)
      \<notin> lockedJobs (registry (step (run evs) (Resume i)))"
    by (simp add: lockedJobs_resume)
next
  assume "fst (addJob_start st jobid jobValue) = Inl e"
  then show "lockedJobs (snd (addJob_start st jobid jobValue)) = lockedJobs st"
    by (simp add: addJob_start_error_state)
next
  assume "fst (removeJob_start st jobid) = Inl e"
  then show "lockedJobs (snd (removeJob_start st jobid)) = lockedJobs st"
    by (simp add: removeJob_start_error_state)
next
  assume "fst (addJob st jobid jobValue) = Inr ()"
  then show "jobid \<notin> lockedJobs (snd (addJob st jobid jobValue))"
    by (simp add: addJob_success_state lockedJobs_addJob_resume)
next
  assume "fst (removeJob st jobid) = Inr ()"
  then show "jobid \<notin> lockedJobs (snd (removeJob st jobid))"
    by (simp add: removeJob_success_state lockedJobs_removeJob_resume)
next
  show "jobid \<notin> lockedJobs (addJob_resume st jobid jobValue)"
    by (simp add: lockedJobs_addJob_resume)
  show "jobid \<notin> lockedJobs (removeJob_resume st jobid)"
    by (simp add: lockedJobs_removeJob_resume)
qed

theorem lock_held_while_in_flight_witness:
  "lockedJobs (registry (run [Add_call (Str ''A'') (Str ''5''), Add_call (Str ''A'') (Str ''6''),
       Add_call (Str ''B'') (Str ''7'')])) = {Str ''A'', Str ''B''}
   \<and> in_flight (run [Add_call (Str ''A'') (Str ''5''), Add_call (Str ''A'') (Str ''6''),
       Add_call (Str ''B'') (Str ''7'')]) = [Adding (Str ''A'') (Str ''5''), Adding (Str ''B'') (Str ''7'')]
   \<and> Str ''A'' \<notin> lockedJobs (registry (step
       (run [Add_call (Str ''A'') (Str ''5''), Add_call (Str ''A'') (Str ''6''),
          Add_call (Str ''B'') (Str ''7'')]) (Resume 0)))
   \<and> lockedJobs (snd (addJob_start adding_A (Str ''A'') (Str ''6''))) = {Str ''A''}
   \<and> lockedJobs (snd (removeJob_start removing_A (Str ''A''))) = {Str ''A''}
   \<and> Str ''B'' \<notin> lockedJobs (snd (addJob one_job (Str ''B'') (Str ''7'')))
   \<and> Str ''A'' \<notin> lockedJobs (snd (removeJob one_job (Str ''A'')))"
proof -
  let ?evs = "[Add_call (Str ''A'') (Str ''5''), Add_call (Str ''A'') (Str ''6''),
       Add_call (Str ''B'') (Str ''7'')]"
  have f: "in_flight (run ?evs) = [Adding (Str ''A'') (Str ''5''), Adding (Str ''B'') (Str ''7'')]"
    by (simp add: step_defs)
  have e1: "fst (addJob_start adding_A (Str ''A'') (Str ''6'')) = Inl AlreadyProcessing"
    by (simp add: addJob_start_result adding_A_def Map_has_def)
  have e2: "fst (removeJob_start removing_A (Str ''A'')) = Inl AlreadyProcessing"
    by (simp add: removeJob_start_result removing_A_def Map_has_def)
  have o1: "fst (addJob one_job (Str ''B'') (Str ''7'')) = Inr ()"
    by (simp add: addJob_result addJob_start_result one_job_def Map_has_def)
  have o2: "fst (removeJob one_job (Str ''A'')) = Inr ()"
    by (simp add: removeJob_result removeJob_start_result one_job_def Map_has_def)
  show ?thesis
    using f e1 e2 o1 o2
      lock_held_while_in_flight [where evs = ?evs and i = 0 and st = adding_A
        and jobid = "Str ''A''" and jobValue = "Str ''6''" and e = AlreadyProcessing]
      lock_held_while_in_flight [where evs = ?evs and i = 0 and st = removing_A
        and jobid = "Str ''A''" and jobValue = "Str ''6''" and e = AlreadyProcessing]
      lock_held_while_in_flight [where evs = ?evs and i = 0 and st = one_job
        and jobid = "Str ''B''" and jobValue = "Str ''7''" and e = AlreadyProcessing]
      lock_held_while_in_flight [where evs = ?evs and i = 0 and st = one_job
        and jobid = "Str ''A''" and jobValue = "Str ''7''" and e = AlreadyProcessing]
    by (simp add: adding_A_def removing_A_def)
qed

text \<open>
  C9 as stated says that the identifier is not in the lock set after a call that ends
  with an error.  While \<^verbatim>\<open>addJob("A", "5")\<close> waits for its timer, a second
  \<^verbatim>\<open>addJob("A", "6")\<close> fails with AlreadyProcessing, and when it has failed the
  identifier is in the lock set, held by the first call.
\<close>

theorem lock_still_held_after_rejected_call:
  "addJob_start init (Str ''A'') (Str ''5'') = (Inr (), adding_A)
   \<and> addJob adding_A (Str ''A'') (Str ''6'') = (Inl AlreadyProcessing, adding_A)
   \<and> Str ''A'' \<in> lockedJobs (snd (addJob adding_A (Str ''A'') (Str ''6'')))"
  by (simp add: run_defs adding_A_def)

end
